theory Spec2Isabelle
  imports Complex_Main "HOL-Library.Signed_Division"
begin

section \<open>Neighborhood-neighborhood CPU kernel for 3D data\<close>

text \<open>
  A shallow embedding of \<^verbatim>\<open>NeighborhoodNeighborhood3D::launch\<close>
  (\<^verbatim>\<open>csrc/include/natten/cpu/naive/neighborhood_neighborhood_3d.hpp\<close>), the kernel
  that applies neighborhood attention weights to neighborhood values.

  Conventions of the embedding.
  \<^item> The C++ integers (\<^verbatim>\<open>int32_t\<close>, \<^verbatim>\<open>int64_t\<close>) are mathematical integers:
    signed overflow is undefined behaviour in C++, so the model describes the runs
    in which no intermediate value leaves its machine type.
  \<^item> C++ \<^verbatim>\<open>/\<close> truncates towards zero; it is \<open>sdiv\<close>.
  \<^item> The three raw pointers are three separate buffers (lists); an access outside a
    buffer, undefined behaviour in C++, is the result \<open>None\<close>.
  \<^item> \<^verbatim>\<open>scalar_t\<close> is a type \<open>'a\<close> with \<open>0\<close>, \<open>+\<close> and \<open>*\<close>; no law of
    arithmetic is assumed of it unless a theorem says so.
  \<^item> A loop that would never leave (a step that is not positive) is the result
    \<open>None\<close> as well.
\<close>

subsection \<open>Parameters of \<^verbatim>\<open>launch\<close>\<close>

record params =
  depth :: int
  height :: int
  width :: int
  heads :: int
  kernel_size_0 :: int
  kernel_size_1 :: int
  kernel_size_2 :: int
  dilation_0 :: int
  dilation_1 :: int
  dilation_2 :: int
  dim :: int
  batch_size :: int
  weights_stride_0 :: int
  weights_stride_1 :: int
  weights_stride_2 :: int
  weights_stride_3 :: int
  weights_stride_4 :: int
  is_causal_0 :: bool
  is_causal_1 :: bool
  is_causal_2 :: bool

text \<open>Lines 120--122: \<^verbatim>\<open>neighborhood_size_n = kernel_size_n / 2\<close>.\<close>

definition neighborhood_size_0 :: "params \<Rightarrow> int" where
  "neighborhood_size_0 P = kernel_size_0 P sdiv 2"

definition neighborhood_size_1 :: "params \<Rightarrow> int" where
  "neighborhood_size_1 P = kernel_size_1 P sdiv 2"

definition neighborhood_size_2 :: "params \<Rightarrow> int" where
  "neighborhood_size_2 P = kernel_size_2 P sdiv 2"

text \<open>Lines 123--127: the strides of the value and output tensors, derived from the shape.\<close>

definition values_stride_4 :: "params \<Rightarrow> int" where
  "values_stride_4 P = dim P"

definition values_stride_3 :: "params \<Rightarrow> int" where
  "values_stride_3 P = width P * values_stride_4 P"

definition values_stride_2 :: "params \<Rightarrow> int" where
  "values_stride_2 P = height P * values_stride_3 P"

definition values_stride_1 :: "params \<Rightarrow> int" where
  "values_stride_1 P = depth P * values_stride_2 P"

definition values_stride_0 :: "params \<Rightarrow> int" where
  "values_stride_0 P = heads P * values_stride_1 P"

subsection \<open>Address arithmetic\<close>

text \<open>Lines 134--144: the coordinate \<open>(b, h, k, i, j)\<close> of the flat index \<open>x\<close>.\<close>

definition coords :: "params \<Rightarrow> int \<Rightarrow> int \<times> int \<times> int \<times> int \<times> int" where
  "coords P x =
     (let indtmp1 = x sdiv width P;
          j = x - indtmp1 * width P;
          indtmp2 = indtmp1 sdiv height P;
          i = indtmp1 - indtmp2 * height P;
          indtmp1 = indtmp2;
          indtmp2 = indtmp1 sdiv depth P;
          k = indtmp1 - indtmp2 * depth P;
          indtmp1 = indtmp2;
          indtmp2 = indtmp1 sdiv heads P;
          h = indtmp1 - indtmp2 * heads P;
          b = indtmp2
      in (b, h, k, i, j))"

text \<open>Lines 192--194.\<close>

definition weightsOffset :: "params \<Rightarrow> int \<Rightarrow> int \<Rightarrow> int \<Rightarrow> int \<Rightarrow> int \<Rightarrow> int" where
  "weightsOffset P b h k i j =
     b * weights_stride_0 P + h * weights_stride_1 P + k * weights_stride_2 P +
     i * weights_stride_3 P + j * weights_stride_4 P"

text \<open>Lines 195--196.\<close>

definition valuesOffset :: "params \<Rightarrow> int \<Rightarrow> int \<Rightarrow> int \<Rightarrow> int" where
  "valuesOffset P b h d = b * values_stride_0 P + h * values_stride_1 P + d"

text \<open>Lines 200--201.\<close>

definition valuesIndex :: "params \<Rightarrow> int \<Rightarrow> int \<Rightarrow> int \<Rightarrow> int \<Rightarrow> int" where
  "valuesIndex P values_off xk xi xj =
     values_off + xk * values_stride_2 P + xi * values_stride_3 P + xj * values_stride_4 P"

text \<open>Lines 202--206.\<close>

definition weightsIndex ::
  "params \<Rightarrow> int \<Rightarrow> int \<Rightarrow> int \<Rightarrow> int \<Rightarrow> int \<Rightarrow> int \<Rightarrow> int \<Rightarrow> int" where
  "weightsIndex P weights_off nk ni nj xk xi xj =
     weights_off +
     ((xk - nk) sdiv dilation_0 P) * (kernel_size_1 P * kernel_size_2 P) +
     ((xi - ni) sdiv dilation_1 P) * kernel_size_2 P +
     ((xj - nj) sdiv dilation_2 P)"

text \<open>Lines 211--213.\<close>

definition linearIndex :: "params \<Rightarrow> int \<Rightarrow> int \<Rightarrow> int \<Rightarrow> int \<Rightarrow> int \<Rightarrow> int \<Rightarrow> int" where
  "linearIndex P b h k i j d =
     b * values_stride_0 P + h * values_stride_1 P + k * values_stride_2 P +
     i * values_stride_3 P + j * values_stride_4 P + d"

subsection \<open>Buffers and loops\<close>

definition read_at :: "'a list \<Rightarrow> int \<Rightarrow> 'a option" where
  "read_at buf idx = (if 0 \<le> idx \<and> idx < int (length buf) then Some (buf ! nat idx) else None)"

definition write_at :: "'a list \<Rightarrow> int \<Rightarrow> 'a \<Rightarrow> 'a list option" where
  "write_at buf idx v =
     (if 0 \<le> idx \<and> idx < int (length buf) then Some (buf[nat idx := v]) else None)"

text \<open>
  \<^verbatim>\<open>for (int32_t x = start; x < e; x += step) body\<close>, the body threading a state and
  failing with \<open>None\<close>. After a body that returned, a step that is not positive leaves
  \<open>x < e\<close> true for ever: the loop does not return.
\<close>

function for_loop ::
  "int \<Rightarrow> int \<Rightarrow> int \<Rightarrow> (int \<Rightarrow> 's \<Rightarrow> 's option) \<Rightarrow> 's \<Rightarrow> 's option" where
  "for_loop x e step body s =
     (if x < e then
        (case body x s of
           None \<Rightarrow> None
         | Some s' \<Rightarrow> if step \<le> 0 then None else for_loop (x + step) e step body s')
      else Some s)"
  by pat_completeness auto
termination
  by (relation "measure (\<lambda>(x, e, step, body, s). nat (e - x))") auto

subsection \<open>The kernel\<close>

text \<open>
  \<^verbatim>\<open>get_window_start\<close> and \<^verbatim>\<open>get_window_end\<close> are declared in
  \<^verbatim>\<open>natten_cpu_commons.h\<close>, which is not among the sources. The kernel
  takes them as the parameters \<open>window_start\<close> and \<open>window_end\<close>, with the argument
  order of the calls at lines 145--189.
\<close>

type_synonym window_start_fn = "int \<Rightarrow> int \<Rightarrow> int \<Rightarrow> int \<Rightarrow> int \<Rightarrow> bool \<Rightarrow> int"
type_synonym window_end_fn = "int \<Rightarrow> int \<Rightarrow> int \<Rightarrow> int \<Rightarrow> int \<Rightarrow> int \<Rightarrow> bool \<Rightarrow> int"

text \<open>Lines 200--207: the body of the innermost loop.\<close>

definition accumulate ::
  "'a::{zero,plus,times} list \<Rightarrow> 'a list \<Rightarrow> params \<Rightarrow> int \<Rightarrow> int \<Rightarrow> int \<Rightarrow> int \<Rightarrow> int \<Rightarrow>
   int \<Rightarrow> int \<Rightarrow> int \<Rightarrow> 'a \<Rightarrow> 'a option" where
  "accumulate weights values P weights_off values_off nk ni nj xk xi xj updt =
     (case read_at weights (weightsIndex P weights_off nk ni nj xk xi xj) of
        None \<Rightarrow> None
      | Some w \<Rightarrow>
          (case read_at values (valuesIndex P values_off xk xi xj) of
             None \<Rightarrow> None
           | Some v \<Rightarrow> Some (updt + w * v)))"

text \<open>Lines 191--214: the body of the channel loop, for one coordinate and its window.\<close>

definition channel_body ::
  "'a::{zero,plus,times} list \<Rightarrow> 'a list \<Rightarrow> params \<Rightarrow> int \<Rightarrow> int \<Rightarrow> int \<Rightarrow> int \<Rightarrow> int \<Rightarrow>
   int \<Rightarrow> int \<Rightarrow> int \<Rightarrow> int \<Rightarrow> int \<Rightarrow> int \<Rightarrow> int \<Rightarrow> 'a list \<Rightarrow> 'a list option" where
  "channel_body weights values P b h k i j nk ni nj ek ei ej d output =
     (case
        for_loop nk ek (dilation_0 P) (\<lambda>xk.
          for_loop ni ei (dilation_1 P) (\<lambda>xi.
            for_loop nj ej (dilation_2 P) (\<lambda>xj.
              accumulate weights values P (weightsOffset P b h k i j) (valuesOffset P b h d)
                nk ni nj xk xi xj))) 0
      of
        None \<Rightarrow> None
      | Some updt \<Rightarrow> write_at output (linearIndex P b h k i j d) updt)"

text \<open>Lines 134--216: the body of the loop over the flattened coordinates.\<close>

definition coordinate_body ::
  "window_start_fn \<Rightarrow> window_end_fn \<Rightarrow> 'a::{zero,plus,times} list \<Rightarrow> 'a list \<Rightarrow> params \<Rightarrow>
   int \<Rightarrow> 'a list \<Rightarrow> 'a list option" where
  "coordinate_body window_start window_end weights values P x output =
     (case coords P x of (b, h, k, i, j) \<Rightarrow>
        (let nk = window_start k (depth P) (kernel_size_0 P) (neighborhood_size_0 P)
                    (dilation_0 P) (is_causal_0 P);
             ni = window_start i (height P) (kernel_size_1 P) (neighborhood_size_1 P)
                    (dilation_1 P) (is_causal_1 P);
             nj = window_start j (width P) (kernel_size_2 P) (neighborhood_size_2 P)
                    (dilation_2 P) (is_causal_2 P);
             ek = window_end k nk (depth P) (kernel_size_0 P) (neighborhood_size_0 P)
                    (dilation_0 P) (is_causal_0 P);
             ei = window_end i ni (height P) (kernel_size_1 P) (neighborhood_size_1 P)
                    (dilation_1 P) (is_causal_1 P);
             ej = window_end j nj (width P) (kernel_size_2 P) (neighborhood_size_2 P)
                    (dilation_2 P) (is_causal_2 P)
         in for_loop 0 (dim P) 1
              (channel_body weights values P b h k i j nk ni nj ek ei ej) output))"

text \<open>
  Lines 128--217. \<^verbatim>\<open>at::parallel_for\<close> hands the range
  \<open>[0, batch_size * heads * depth * height * width)\<close> to the loop body in chunks; the
  model runs the chunks one after the other in increasing order, which is the single
  loop over the whole range.
\<close>

definition launch ::
  "window_start_fn \<Rightarrow> window_end_fn \<Rightarrow> 'a::{zero,plus,times} list \<Rightarrow> 'a list \<Rightarrow> 'a list \<Rightarrow>
   params \<Rightarrow> 'a list option" where
  "launch window_start window_end weights values output P =
     for_loop 0 (batch_size P * heads P * depth P * height P * width P) 1
       (coordinate_body window_start window_end weights values P) output"

subsection \<open>The window boundary resolver\<close>

text \<open>
  Modelled from the spec: \<^verbatim>\<open>get_window_start\<close> of \<^verbatim>\<open>natten_cpu_commons.h\<close>,
  which is not among the sources. The arguments are those of the calls in
  \<^verbatim>\<open>launch\<close>: position, axis extent, kernel size, neighborhood radius, dilation,
  causal flag.

  The spec's words (section 4.1):
  \<^item> contract: \<open>window_start \<le> position < window_end\<close>, and all returned indices lie in
    \<open>[0, axis_extent)\<close>, for every position of the axis, \<open>kernel_size \<le> axis_extent\<close> and
    \<open>dilation \<ge> 1\<close>;
  \<^item> non-causal: the window is centred on the position, nominally from
    \<open>position - radius\<close>, and holds \<open>kernel_size\<close> positions; if it would extend past the
    upper bound it is shifted down by exactly the overflow amount, if it would extend past
    the lower bound it is shifted up; the width is constant except where the axis is
    shorter than the kernel;
  \<^item> causal: the lower bound is \<open>max(0, position - kernel_size + 1)\<close> in the non-dilated
    case, generalised for dilation so that the positions sampled with stride \<open>dilation\<close>
    are at most \<open>kernel_size\<close> and end at \<open>position\<close>;
  \<^item> dilation: the bounds are in the units of the base axis, and the kernel samples every
    \<open>dilation\<close>-th position from \<open>window_start\<close>.

  The spec does not say how the policies read under dilation. The model applies them to
  the sub-axis of the positions that are reachable from \<open>position\<close> in steps of
  \<open>dilation\<close> (\<open>length_pdp\<close> of them, \<open>position\<close> being number \<open>index_pdp\<close>), and maps
  the result back to the base axis. The overflow is that of the \<open>kernel_size\<close> positions
  from the nominal start over the sub-axis, and the shift up to the lower bound comes
  last, so that a sub-axis shorter than the kernel gives a narrower window from its first
  position. Under this reading the contract holds at every input that the spec allows,
  and the windows are those of the spec's four concrete scenarios (section 8).
\<close>

definition get_window_start :: window_start_fn where
  "get_window_start position axis_extent kernel_size neighborhood_radius dilation is_causal =
     (let dilation_idx = position mod dilation;
          index_pdp = position div dilation;
          length_pdp = (axis_extent - dilation_idx + dilation - 1) div dilation;
          nominal = index_pdp - neighborhood_radius;
          overflow = nominal + kernel_size - length_pdp;
          start_idx =
            (if is_causal then max 0 (index_pdp - kernel_size + 1)
             else max 0 (if overflow > 0 then nominal - overflow else nominal))
      in start_idx * dilation + dilation_idx)"

text \<open>
  Modelled from the spec: \<^verbatim>\<open>get_window_end\<close> of \<^verbatim>\<open>natten_cpu_commons.h\<close>, which
  is not among the sources. The second argument is the window start, as in the
  calls in \<^verbatim>\<open>launch\<close>.

  The spec's words: for a causal axis \<open>window_end - 1 == position\<close> (sections 4.1 and 8);
  for a non-causal axis the window holds \<open>kernel_size\<close> sampled positions from its start
  (scenario 4 of section 8: start 2, kernel size 3, dilation 2 give the window
  \<open>[2, 8)\<close>), and no index leaves \<open>[0, axis_extent)\<close>.
\<close>

definition get_window_end :: window_end_fn where
  "get_window_end position window_start axis_extent kernel_size neighborhood_radius dilation
       is_causal =
     (if is_causal then position + 1
      else min axis_extent (window_start + kernel_size * dilation))"

section \<open>Vocabulary of the properties\<close>

subsection \<open>The coordinate space\<close>

text \<open>The row-major flattening of a coordinate, \<open>j\<close> varying fastest.\<close>

definition flat_index :: "params \<Rightarrow> int \<Rightarrow> int \<Rightarrow> int \<Rightarrow> int \<Rightarrow> int \<Rightarrow> int" where
  "flat_index P b h k i j =
     (((b * heads P + h) * depth P + k) * height P + i) * width P + j"

definition in_range :: "params \<Rightarrow> int \<Rightarrow> int \<Rightarrow> int \<Rightarrow> int \<Rightarrow> int \<Rightarrow> bool" where
  "in_range P b h k i j \<longleftrightarrow>
     0 \<le> b \<and> b < batch_size P \<and> 0 \<le> h \<and> h < heads P \<and> 0 \<le> k \<and> k < depth P \<and>
     0 \<le> i \<and> i < height P \<and> 0 \<le> j \<and> j < width P"

text \<open>The bound of the loop over the flattened coordinates (line 130).\<close>

definition total_coords :: "params \<Rightarrow> int" where
  "total_coords P = batch_size P * heads P * depth P * height P * width P"

definition positive_shape :: "params \<Rightarrow> bool" where
  "positive_shape P \<longleftrightarrow>
     0 < batch_size P \<and> 0 < heads P \<and> 0 < depth P \<and> 0 < height P \<and> 0 < width P \<and> 0 < dim P"

text \<open>The flat offsets of the channel vector that the kernel writes for one coordinate.\<close>

definition output_region :: "params \<Rightarrow> int \<Rightarrow> int \<Rightarrow> int \<Rightarrow> int \<Rightarrow> int \<Rightarrow> int set" where
  "output_region P b h k i j = (\<lambda>d. linearIndex P b h k i j d) ` {0..<dim P}"

subsection \<open>What a loop visits\<close>

text \<open>
  The values that \<open>x\<close> takes in \<^verbatim>\<open>for (x = n; x < e; x += step)\<close> with a positive
  step, and a body run over a list of them. Lemma \<open>for_loop_run_all\<close> below ties both to
  \<open>for_loop\<close>.
\<close>

function sampled_positions :: "int \<Rightarrow> int \<Rightarrow> int \<Rightarrow> int list" where
  "sampled_positions x e step =
     (if x < e \<and> 0 < step then x # sampled_positions (x + step) e step else [])"
  by pat_completeness auto
termination
  by (relation "measure (\<lambda>(x, e, step). nat (e - x))") auto

primrec run_all :: "('x \<Rightarrow> 's \<Rightarrow> 's option) \<Rightarrow> 'x list \<Rightarrow> 's \<Rightarrow> 's option" where
  "run_all body [] s = Some s"
| "run_all body (x # xs) s = (case body x s of None \<Rightarrow> None | Some s' \<Rightarrow> run_all body xs s')"

text \<open>The loop header of lines 197--199 with a body that records the position.\<close>

definition loop_positions :: "int \<Rightarrow> int \<Rightarrow> int \<Rightarrow> int list option" where
  "loop_positions n e d = for_loop n e d (\<lambda>x xs. Some (xs @ [x])) []"

text \<open>The window \<open>[n, e)\<close> stepped by \<open>d\<close> from \<open>n\<close>, as a set.\<close>

definition stepped_window :: "int \<Rightarrow> int \<Rightarrow> int \<Rightarrow> int set" where
  "stepped_window n e d = {x. n \<le> x \<and> x < e \<and> (x - n) mod d = 0}"

subsection \<open>The window of a coordinate and the value of an output element\<close>

definition axis_window ::
  "window_start_fn \<Rightarrow> window_end_fn \<Rightarrow> int \<Rightarrow> int \<Rightarrow> int \<Rightarrow> int \<Rightarrow> int \<Rightarrow> bool \<Rightarrow> int \<times> int" where
  "axis_window window_start window_end position extent ks r d c =
     (let s = window_start position extent ks r d c
      in (s, window_end position s extent ks r d c))"

text \<open>Lines 145--189: the three windows of a coordinate.\<close>

definition window_0 :: "window_start_fn \<Rightarrow> window_end_fn \<Rightarrow> params \<Rightarrow> int \<Rightarrow> int \<times> int" where
  "window_0 window_start window_end P k =
     axis_window window_start window_end k (depth P) (kernel_size_0 P) (neighborhood_size_0 P)
       (dilation_0 P) (is_causal_0 P)"

definition window_1 :: "window_start_fn \<Rightarrow> window_end_fn \<Rightarrow> params \<Rightarrow> int \<Rightarrow> int \<times> int" where
  "window_1 window_start window_end P i =
     axis_window window_start window_end i (height P) (kernel_size_1 P) (neighborhood_size_1 P)
       (dilation_1 P) (is_causal_1 P)"

definition window_2 :: "window_start_fn \<Rightarrow> window_end_fn \<Rightarrow> params \<Rightarrow> int \<Rightarrow> int \<times> int" where
  "window_2 window_start window_end P j =
     axis_window window_start window_end j (width P) (kernel_size_2 P) (neighborhood_size_2 P)
       (dilation_2 P) (is_causal_2 P)"

text \<open>
  The triples \<open>(xk, xi, xj)\<close> in the order in which the three nested loops of lines
  197--199 reach them: axis 0 outermost, axis 2 innermost.
\<close>

definition window_triples ::
  "params \<Rightarrow> int \<Rightarrow> int \<Rightarrow> int \<Rightarrow> int \<Rightarrow> int \<Rightarrow> int \<Rightarrow> (int \<times> int \<times> int) list" where
  "window_triples P nk ni nj ek ei ej =
     concat (map (\<lambda>xk.
       concat (map (\<lambda>xi.
         map (\<lambda>xj. (xk, xi, xj)) (sampled_positions nj ej (dilation_2 P)))
       (sampled_positions ni ei (dilation_1 P))))
     (sampled_positions nk ek (dilation_0 P)))"

text \<open>The product that line 207 adds for one triple.\<close>

definition product_term ::
  "'a::{zero,plus,times} list \<Rightarrow> 'a list \<Rightarrow> params \<Rightarrow> int \<Rightarrow> int \<Rightarrow> int \<Rightarrow> int \<Rightarrow> int \<Rightarrow>
   int \<times> int \<times> int \<Rightarrow> 'a" where
  "product_term weights values P weights_off values_off nk ni nj t =
     (case t of (xk, xi, xj) \<Rightarrow>
        weights ! nat (weightsIndex P weights_off nk ni nj xk xi xj) *
        values ! nat (valuesIndex P values_off xk xi xj))"

text \<open>The left fold of the products over a list of triples, from \<open>0\<close>.\<close>

definition ordered_sum ::
  "'a::{zero,plus,times} list \<Rightarrow> 'a list \<Rightarrow> params \<Rightarrow> int \<Rightarrow> int \<Rightarrow> int \<Rightarrow> int \<Rightarrow> int \<Rightarrow>
   (int \<times> int \<times> int) list \<Rightarrow> 'a" where
  "ordered_sum weights values P weights_off values_off nk ni nj ts =
     foldl (\<lambda>updt t. updt + product_term weights values P weights_off values_off nk ni nj t) 0 ts"

definition channel_value ::
  "window_start_fn \<Rightarrow> window_end_fn \<Rightarrow> 'a::{zero,plus,times} list \<Rightarrow> 'a list \<Rightarrow> params \<Rightarrow>
   int \<Rightarrow> int \<Rightarrow> int \<Rightarrow> int \<Rightarrow> int \<Rightarrow> int \<Rightarrow> 'a" where
  "channel_value window_start window_end weights values P b h k i j d =
     (case window_0 window_start window_end P k of (nk, ek) \<Rightarrow>
      case window_1 window_start window_end P i of (ni, ei) \<Rightarrow>
      case window_2 window_start window_end P j of (nj, ej) \<Rightarrow>
        ordered_sum weights values P (weightsOffset P b h k i j) (valuesOffset P b h d)
          nk ni nj (window_triples P nk ni nj ek ei ej))"

text \<open>
  The index into the last dimension of the weight tensor, in the words of the
  specification: the offsets from the window start, divided by the dilation, in row-major
  order.
\<close>

definition enum_index :: "params \<Rightarrow> int \<Rightarrow> int \<Rightarrow> int \<Rightarrow> int \<Rightarrow> int \<Rightarrow> int \<Rightarrow> int" where
  "enum_index P nk ni nj xk xi xj =
     ((xk - nk) div dilation_0 P) * kernel_size_1 P * kernel_size_2 P +
     ((xi - ni) div dilation_1 P) * kernel_size_2 P + (xj - nj) div dilation_2 P"

definition kernel_volume :: "params \<Rightarrow> int" where
  "kernel_volume P = kernel_size_0 P * kernel_size_1 P * kernel_size_2 P"

subsection \<open>The writes of a run\<close>

definition output_offset :: "params \<Rightarrow> int \<Rightarrow> int \<Rightarrow> int" where
  "output_offset P x d = (case coords P x of (b, h, k, i, j) \<Rightarrow> linearIndex P b h k i j d)"

definition element_value ::
  "window_start_fn \<Rightarrow> window_end_fn \<Rightarrow> 'a::{zero,plus,times} list \<Rightarrow> 'a list \<Rightarrow> params \<Rightarrow>
   int \<Rightarrow> int \<Rightarrow> 'a" where
  "element_value window_start window_end weights values P x d =
     (case coords P x of (b, h, k, i, j) \<Rightarrow>
        channel_value window_start window_end weights values P b h k i j d)"

text \<open>
  The pairs (flat coordinate index, channel) in the order in which the loops of lines
  133 and 190 reach line 214.
\<close>

definition output_writes :: "params \<Rightarrow> (int \<times> int) list" where
  "output_writes P = List.product [0..total_coords P - 1] [0..dim P - 1]"

subsection \<open>Preconditions\<close>

text \<open>
  What the kernel needs of the two window functions on one axis: for a position of the
  axis, a window inside the axis that holds at most \<open>ks\<close> sampled positions.
\<close>

definition axis_contract ::
  "window_start_fn \<Rightarrow> window_end_fn \<Rightarrow> int \<Rightarrow> int \<Rightarrow> int \<Rightarrow> int \<Rightarrow> bool \<Rightarrow> bool" where
  "axis_contract window_start window_end extent ks r d c \<longleftrightarrow>
     (\<forall>p\<in>{0..<extent}.
        case axis_window window_start window_end p extent ks r d c of
          (s, e) \<Rightarrow> 0 \<le> s \<and> e \<le> extent \<and> e - s \<le> ks * d)"

definition resolver_contract :: "window_start_fn \<Rightarrow> window_end_fn \<Rightarrow> params \<Rightarrow> bool" where
  "resolver_contract window_start window_end P \<longleftrightarrow>
     axis_contract window_start window_end (depth P) (kernel_size_0 P) (neighborhood_size_0 P)
       (dilation_0 P) (is_causal_0 P) \<and>
     axis_contract window_start window_end (height P) (kernel_size_1 P) (neighborhood_size_1 P)
       (dilation_1 P) (is_causal_1 P) \<and>
     axis_contract window_start window_end (width P) (kernel_size_2 P) (neighborhood_size_2 P)
       (dilation_2 P) (is_causal_2 P)"

text \<open>
  The weight buffer holds every element that the caller's strides address: the
  \<open>kernel_volume\<close> consecutive elements from the offset of each coordinate.
\<close>

definition weights_fit :: "'a list \<Rightarrow> params \<Rightarrow> bool" where
  "weights_fit weights P \<longleftrightarrow>
     (\<forall>b\<in>{0..<batch_size P}. \<forall>h\<in>{0..<heads P}. \<forall>k\<in>{0..<depth P}. \<forall>i\<in>{0..<height P}.
      \<forall>j\<in>{0..<width P}. \<forall>e\<in>{0..<kernel_volume P}.
        0 \<le> weightsOffset P b h k i j + e \<and>
        weightsOffset P b h k i j + e < int (length weights))"

definition preconditions ::
  "window_start_fn \<Rightarrow> window_end_fn \<Rightarrow> 'a list \<Rightarrow> 'a list \<Rightarrow> 'a list \<Rightarrow> params \<Rightarrow> bool" where
  "preconditions window_start window_end weights values output P \<longleftrightarrow>
     positive_shape P \<and> 0 < dilation_0 P \<and> 0 < dilation_1 P \<and> 0 < dilation_2 P \<and>
     resolver_contract window_start window_end P \<and> weights_fit weights P \<and>
     int (length values) = total_coords P * dim P \<and>
     int (length output) = total_coords P * dim P"

subsection \<open>The order of the accumulation\<close>

text \<open>Row-major order on triples: axis 0 slowest, axis 2 fastest.\<close>

definition row_major_before :: "int \<times> int \<times> int \<Rightarrow> int \<times> int \<times> int \<Rightarrow> bool" where
  "row_major_before s t =
     (case s of (xk, xi, xj) \<Rightarrow> case t of (yk, yi, yj) \<Rightarrow>
        xk < yk \<or> xk = yk \<and> (xi < yi \<or> xi = yi \<and> xj < yj))"

subsection \<open>The preconditions as the specification states them\<close>

text \<open>
  Section 7 of the specification: consistent shapes, \<open>kernel_size \<le> extent\<close> and
  \<open>dilation \<ge> 1\<close> on every axis, strides that describe the layout of the weights. Kernel
  sizes are positive.
\<close>

definition stated_preconditions :: "'a list \<Rightarrow> 'a list \<Rightarrow> 'a list \<Rightarrow> params \<Rightarrow> bool" where
  "stated_preconditions weights values output P \<longleftrightarrow>
     positive_shape P \<and>
     1 \<le> kernel_size_0 P \<and> kernel_size_0 P \<le> depth P \<and> 1 \<le> dilation_0 P \<and>
     1 \<le> kernel_size_1 P \<and> kernel_size_1 P \<le> height P \<and> 1 \<le> dilation_1 P \<and>
     1 \<le> kernel_size_2 P \<and> kernel_size_2 P \<le> width P \<and> 1 \<le> dilation_2 P \<and>
     weights_fit weights P \<and>
     int (length values) = total_coords P * dim P \<and>
     int (length output) = total_coords P * dim P"

subsection \<open>A small instance\<close>

text \<open>
  One batch, one head, a \<open>1 \<times> 1 \<times> 3\<close> volume with two channels and a \<open>1 \<times> 1 \<times> 3\<close>
  kernel; the weight tensor is dense.
\<close>

definition demo_params :: params where
  "demo_params =
     \<lparr>depth = 1, height = 1, width = 3, heads = 1,
      kernel_size_0 = 1, kernel_size_1 = 1, kernel_size_2 = 3,
      dilation_0 = 1, dilation_1 = 1, dilation_2 = 1, dim = 2, batch_size = 1,
      weights_stride_0 = 9, weights_stride_1 = 9, weights_stride_2 = 9,
      weights_stride_3 = 9, weights_stride_4 = 3,
      is_causal_0 = False, is_causal_1 = False, is_causal_2 = False\<rparr>"

definition demo_weights :: "int list" where
  "demo_weights = [1, 2, 3, 4, 5, 6, 7, 8, 9]"

definition demo_values :: "int list" where
  "demo_values = [1, 10, 100, 1000, 10000, 100000]"

definition demo_output :: "int list" where
  "demo_output = [0, 0, 0, 0, 0, 0]"

text \<open>
  A \<open>1 \<times> 1 \<times> 2\<close> volume with one channel and the even kernel size 2 on axis 2, the
  whole extent of the axis.
\<close>

definition even_params :: params where
  "even_params =
     \<lparr>depth = 1, height = 1, width = 2, heads = 1,
      kernel_size_0 = 1, kernel_size_1 = 1, kernel_size_2 = 2,
      dilation_0 = 1, dilation_1 = 1, dilation_2 = 1, dim = 1, batch_size = 1,
      weights_stride_0 = 4, weights_stride_1 = 4, weights_stride_2 = 4,
      weights_stride_3 = 4, weights_stride_4 = 2,
      is_causal_0 = False, is_causal_1 = False, is_causal_2 = False\<rparr>"

section \<open>Auxiliary facts\<close>

subsection \<open>Integer arithmetic\<close>

lemma sdiv_nonneg: "0 \<le> a \<Longrightarrow> 0 < b \<Longrightarrow> (a::int) sdiv b = a div b"
  by (simp add: signed_divide_int_def sgn_if)

lemma digit_unique:
  fixes m :: int
  assumes "0 \<le> r" "r < m" "0 \<le> r'" "r' < m" "q * m + r = q' * m + r'"
  shows "q = q' \<and> r = r'"
proof -
  have "(q * m + r) div m = (q' * m + r') div m" using assms(5) by simp
  moreover have "(q * m + r) div m = q" using assms(1,2) by simp
  moreover have "(q' * m + r') div m = q'" using assms(3,4) by simp
  ultimately have "q = q'" by simp
  then show ?thesis using assms(5) by simp
qed

lemma radix_bound:
  fixes m :: int
  assumes "0 \<le> q" "q < Q" "0 \<le> r" "r < m"
  shows "0 \<le> q * m + r \<and> q * m + r < Q * m"
proof -
  have m: "0 < m" using assms by simp
  have "0 \<le> q * m" using assms m by simp
  moreover have "(q + 1) * m \<le> Q * m" using assms m by (intro mult_right_mono) simp_all
  ultimately show ?thesis using assms by (simp add: algebra_simps)
qed

lemma div_less_bound:
  fixes m :: int
  assumes "0 \<le> x" "x < Q * m" "0 < m"
  shows "x sdiv m < Q"
proof -
  have "x div m < Q"
  proof (rule ccontr)
    assume "\<not> x div m < Q"
    then have "Q * m \<le> (x div m) * m" using assms(3) by (intro mult_right_mono) simp_all
    also have "\<dots> \<le> x" using assms(3) by (simp add: minus_mod_eq_div_mult[symmetric])
    finally show False using assms(2) by simp
  qed
  then show ?thesis using assms by (simp add: sdiv_nonneg)
qed

lemma split_digit:
  fixes m :: int
  assumes "0 \<le> x" "0 < m"
  shows "0 \<le> x sdiv m" "0 \<le> x - (x sdiv m) * m" "x - (x sdiv m) * m < m" 
proof -
  have e: "x sdiv m = x div m" using assms by (rule sdiv_nonneg)
  show "0 \<le> x sdiv m" using assms e by (simp add: pos_imp_zdiv_nonneg_iff)
  have "x - (x div m) * m = x mod m" by (simp add: minus_div_mult_eq_mod)
  then show "0 \<le> x - (x sdiv m) * m" "x - (x sdiv m) * m < m" using assms e by simp_all
qed

lemma scale_le: "(a::int) \<le> b \<Longrightarrow> 0 < d \<Longrightarrow> a * d + m \<le> b * d + m"
  by simp

lemma ceiling_count:
  "0 < step \<Longrightarrow> - ((x - e) div step) = \<lceil>real_of_int (e - x) / real_of_int step\<rceil>"
  by (metis ceiling_divide_eq_div minus_diff_eq)

subsection \<open>Coordinates and offsets\<close>

lemma linearIndex_flat:
  "linearIndex P b h k i j d = flat_index P b h k i j * dim P + d"
  by (simp add: linearIndex_def flat_index_def values_stride_0_def values_stride_1_def
      values_stride_2_def values_stride_3_def values_stride_4_def algebra_simps)

lemma flat_index_bound:
  assumes "in_range P b h k i j"
  shows "0 \<le> flat_index P b h k i j \<and> flat_index P b h k i j < total_coords P"
proof -
  from assms have r: "0 \<le> b" "b < batch_size P" "0 \<le> h" "h < heads P" "0 \<le> k" "k < depth P"
    "0 \<le> i" "i < height P" "0 \<le> j" "j < width P" by (simp_all add: in_range_def)
  note s1 = radix_bound[OF r(1,2,3,4)]
  note s2 = radix_bound[OF conjunct1[OF s1] conjunct2[OF s1] r(5,6)]
  note s3 = radix_bound[OF conjunct1[OF s2] conjunct2[OF s2] r(7,8)]
  note s4 = radix_bound[OF conjunct1[OF s3] conjunct2[OF s3] r(9,10)]
  show ?thesis using s4 by (simp add: flat_index_def total_coords_def)
qed

lemma flat_index_inj:
  assumes "in_range P b h k i j" "in_range P b' h' k' i' j'"
    and "flat_index P b h k i j = flat_index P b' h' k' i' j'"
  shows "b = b' \<and> h = h' \<and> k = k' \<and> i = i' \<and> j = j'"
proof -
  from assms(1) have r: "0 \<le> b" "b < batch_size P" "0 \<le> h" "h < heads P" "0 \<le> k" "k < depth P"
    "0 \<le> i" "i < height P" "0 \<le> j" "j < width P" by (simp_all add: in_range_def)
  from assms(2) have r': "0 \<le> b'" "b' < batch_size P" "0 \<le> h'" "h' < heads P" "0 \<le> k'" "k' < depth P"
    "0 \<le> i'" "i' < height P" "0 \<le> j'" "j' < width P" by (simp_all add: in_range_def)
  from assms(3) have e4: "(((b * heads P + h) * depth P + k) * height P + i) * width P + j
     = (((b' * heads P + h') * depth P + k') * height P + i') * width P + j'"
    by (simp add: flat_index_def)
  note d4 = digit_unique[OF r(9,10) r'(9,10) e4]
  note d3 = digit_unique[OF r(7,8) r'(7,8) conjunct1[OF d4]]
  note d2 = digit_unique[OF r(5,6) r'(5,6) conjunct1[OF d3]]
  note d1 = digit_unique[OF r(3,4) r'(3,4) conjunct1[OF d2]]
  show ?thesis using d1 d2 d3 d4 by simp
qed

lemma coords_flat:
  assumes "coords P x = (b, h, k, i, j)"
  shows "flat_index P b h k i j = x"
  using assms by (auto simp: coords_def Let_def flat_index_def)

lemma coords_in_range:
  assumes "positive_shape P" "0 \<le> x" "x < total_coords P" "coords P x = (b, h, k, i, j)"
  shows "in_range P b h k i j"
proof -
  from assms(1) have p: "0 < width P" "0 < height P" "0 < depth P" "0 < heads P"
    by (simp_all add: positive_shape_def)
  define t1 where "t1 = x sdiv width P"
  define t2 where "t2 = t1 sdiv height P"
  define t3 where "t3 = t2 sdiv depth P"
  define t4 where "t4 = t3 sdiv heads P"
  from assms(4) have c: "b = t4" "h = t3 - t4 * heads P" "k = t2 - t3 * depth P"
    "i = t1 - t2 * height P" "j = x - t1 * width P"
    unfolding coords_def Let_def t1_def t2_def t3_def t4_def by auto
  have x: "x < ((batch_size P * heads P * depth P) * height P) * width P"
    using assms(3) by (simp add: total_coords_def)
  note a1 = split_digit[OF assms(2) p(1), folded t1_def]
  note a2 = split_digit[OF a1(1) p(2), folded t2_def]
  note a3 = split_digit[OF a2(1) p(3), folded t3_def]
  note a4 = split_digit[OF a3(1) p(4), folded t4_def]
  have b1: "t1 < (batch_size P * heads P * depth P) * height P"
    unfolding t1_def by (rule div_less_bound[OF assms(2) x p(1)])
  have b2: "t2 < (batch_size P * heads P) * depth P"
    unfolding t2_def by (rule div_less_bound[OF a1(1) b1 p(2)])
  have b3: "t3 < batch_size P * heads P"
    unfolding t3_def by (rule div_less_bound[OF a2(1) b2 p(3)])
  have b4: "t4 < batch_size P"
    unfolding t4_def by (rule div_less_bound[OF a3(1) b3 p(4)])
  show ?thesis
    unfolding in_range_def c using a1 a2 a3 a4 b4 by simp
qed

lemma coords_cases:
  obtains b h k i j where "coords P x = (b, h, k, i, j)"
  by (metis prod_cases5)

lemma coords_of_flat:
  assumes "positive_shape P" "in_range P b h k i j"
  shows "coords P (flat_index P b h k i j) = (b, h, k, i, j)"
proof -
  obtain b' h' k' i' j' where c: "coords P (flat_index P b h k i j) = (b', h', k', i', j')"
    by (metis prod_cases5)
  note fb = flat_index_bound[OF assms(2)]
  have "in_range P b' h' k' i' j'"
    by (rule coords_in_range[OF assms(1) conjunct1[OF fb] conjunct2[OF fb] c])
  moreover have "flat_index P b' h' k' i' j' = flat_index P b h k i j"
    by (rule coords_flat[OF c])
  ultimately show ?thesis using flat_index_inj[OF _ assms(2)] c by metis
qed

lemma linearIndex_bound:
  assumes "in_range P b h k i j" "0 \<le> d" "d < dim P"
  shows "0 \<le> linearIndex P b h k i j d \<and> linearIndex P b h k i j d < total_coords P * dim P"
proof -
  note fb = flat_index_bound[OF assms(1)]
  show ?thesis unfolding linearIndex_flat
    by (rule radix_bound[OF conjunct1[OF fb] conjunct2[OF fb] assms(2,3)])
qed

lemma valuesIndex_linear:
  "valuesIndex P (valuesOffset P b h d) xk xi xj = linearIndex P b h xk xi xj d"
  by (simp add: valuesIndex_def valuesOffset_def linearIndex_def)

lemma output_offset_eq: "output_offset P x d = x * dim P + d"
proof -
  obtain b h k i j where c: "coords P x = (b, h, k, i, j)" by (rule coords_cases)
  show ?thesis by (simp add: output_offset_def c linearIndex_flat coords_flat[OF c])
qed

subsection \<open>Loops as folds over the visited positions\<close>

declare for_loop.simps [simp del]
declare sampled_positions.simps [simp del]

lemma for_loop_run_all:
  "0 < step \<Longrightarrow> for_loop x e step body s = run_all body (sampled_positions x e step) s"
proof (induction x e step body s rule: for_loop.induct)
  case (1 x e step body s)
  show ?case
  proof (cases "x < e")
    case False
    then show ?thesis by (simp add: for_loop.simps[of x] sampled_positions.simps[of x])
  next
    case True
    show ?thesis
    proof (cases "body x s")
      case None
      then show ?thesis using True "1.prems"
        by (simp add: for_loop.simps[of x] sampled_positions.simps[of x])
    next
      case (Some s')
      then show ?thesis using True "1.prems" "1.IH"[OF True Some]
        by (simp add: for_loop.simps[of x] sampled_positions.simps[of x])
    qed
  qed
qed

lemma for_loop_run_all_fun:
  "0 < step \<Longrightarrow> for_loop x e step body = run_all body (sampled_positions x e step)"
  by (rule ext) (rule for_loop_run_all)

lemma run_all_total:
  assumes "I s"
    and "\<And>x s. x \<in> set xs \<Longrightarrow> I s \<Longrightarrow> body x s = Some (g x s) \<and> I (g x s)"
  shows "run_all body xs s = Some (fold g xs s) \<and> I (fold g xs s)"
  using assms by (induction xs arbitrary: s) auto

lemma run_all_pure:
  assumes "\<And>x s. x \<in> set xs \<Longrightarrow> body x s = Some (g x s)"
  shows "run_all body xs s = Some (fold g xs s)"
  using assms by (induction xs arbitrary: s) auto

lemma run_all_nested:
  assumes "\<And>x y z s. x \<in> set xs \<Longrightarrow> y \<in> set ys \<Longrightarrow> z \<in> set zs \<Longrightarrow> body x y z s = Some (g x y z s)"
  shows "run_all (\<lambda>x. run_all (\<lambda>y. run_all (body x y) zs) ys) xs s
         = Some (fold (\<lambda>x. fold (\<lambda>y. fold (g x y) zs) ys) xs s)"
proof -
  have l3: "run_all (body x y) zs s = Some (fold (g x y) zs s)"
    if "x \<in> set xs" "y \<in> set ys" for x y s
    by (rule run_all_pure) (rule assms[OF that])
  have l2: "run_all (\<lambda>y. run_all (body x y) zs) ys s = Some (fold (\<lambda>y. fold (g x y) zs) ys s)"
    if "x \<in> set xs" for x s
    by (rule run_all_pure) (rule l3[OF that])
  show ?thesis by (rule run_all_pure) (rule l2)
qed

lemma fold_triples:
  "fold (\<lambda>x. fold (\<lambda>y. fold (\<lambda>z s. f s (x, y, z)) zs) ys) xs s
   = foldl f s (concat (map (\<lambda>x. concat (map (\<lambda>y. map (\<lambda>z. (x, y, z)) zs) ys)) xs))"
proof -
  have l1: "foldl f s (map (\<lambda>z. (x, y, z)) zs) = fold (\<lambda>z s. f s (x, y, z)) zs s" for x y s
    by (induction zs arbitrary: s) simp_all
  have l2: "foldl f s (concat (map (\<lambda>y. map (\<lambda>z. (x, y, z)) zs) ys))
            = fold (\<lambda>y. fold (\<lambda>z s. f s (x, y, z)) zs) ys s" for x s
    by (induction ys arbitrary: s) (simp_all add: l1)
  show ?thesis
    by (induction xs arbitrary: s) (simp_all add: l2)
qed

lemma sampled_positions_nth:
  "0 < step \<Longrightarrow> sampled_positions x e step =
     map (\<lambda>t. x + int t * step) [0 ..< nat (- ((x - e) div step))]"
proof (induction x e step rule: sampled_positions.induct)
  case (1 x e step)
  show ?case
  proof (cases "x < e")
    case False
    then have "(x - e) div step \<ge> 0" using "1.prems" by (simp add: pos_imp_zdiv_nonneg_iff)
    then show ?thesis using False by (simp add: sampled_positions.simps[of x])
  next
    case True
    have d: "(x + step - e) div step = (x - e) div step + 1"
      using "1.prems" by (metis add.commute add_diff_eq div_add_self1 less_irrefl)
    have neg: "(x - e) div step < 0" using True "1.prems" by (simp add: div_neg_pos_less0)
    then have n: "nat (- ((x - e) div step)) = Suc (nat (- ((x + step - e) div step)))"
      using d by simp
    have "sampled_positions x e step = x # sampled_positions (x + step) e step"
      using True "1.prems" by (simp add: sampled_positions.simps[of x])
    also have "\<dots> = x # map (\<lambda>t. x + step + int t * step) [0 ..< nat (- ((x + step - e) div step))]"
      using "1.IH" True "1.prems" by simp
    also have "\<dots> = map (\<lambda>t. x + int t * step) [0 ..< nat (- ((x - e) div step))]"
      unfolding n by (simp add: upt_conv_Cons map_Suc_upt[symmetric] algebra_simps del: upt_Suc)
    finally show ?thesis .
  qed
qed

lemma sampled_positions_length:
  "0 < step \<Longrightarrow> length (sampled_positions x e step) = nat (- ((x - e) div step))"
  by (simp add: sampled_positions_nth)

lemma sampled_positions_count_le:
  fixes d e s ks :: int
  assumes "0 < d" "e - s \<le> ks * d"
  shows "- ((s - e) div d) \<le> ks"
proof -
  have "(- ks) * d \<le> s - e" using assms(2) by simp
  then have "((- ks) * d) div d \<le> (s - e) div d" by (rule zdiv_mono1) (rule assms(1))
  moreover have "((- ks) * d) div d = - ks" using assms(1) by (simp del: mult_minus_left)
  ultimately show ?thesis by linarith
qed

lemma sampled_positions_set:
  "0 < d \<Longrightarrow> set (sampled_positions s e d) = {x. s \<le> x \<and> x < e \<and> (x - s) mod d = 0}"
proof (induction s e d rule: sampled_positions.induct)
  case (1 x e step)
  show ?case
  proof (cases "x < e")
    case False
    then show ?thesis by (auto simp: sampled_positions.simps[of x])
  next
    case True
    have "{y. x \<le> y \<and> y < e \<and> (y - x) mod step = 0}
        = insert x {y. x + step \<le> y \<and> y < e \<and> (y - (x + step)) mod step = 0}"
    proof (intro set_eqI iffI)
      fix y assume "y \<in> {y. x \<le> y \<and> y < e \<and> (y - x) mod step = 0}"
      then have y: "x \<le> y" "y < e" "(y - x) mod step = 0" by simp_all
      show "y \<in> insert x {y. x + step \<le> y \<and> y < e \<and> (y - (x + step)) mod step = 0}"
      proof (cases "y = x")
        case False
        then have "0 < y - x" using y(1) by simp
        moreover have "step dvd y - x" using y(3) by (simp add: mod_eq_0_iff_dvd)
        ultimately have "step \<le> y - x" using zdvd_imp_le by blast
        moreover have "(y - (x + step)) mod step = 0"
          using y(3) by (metis diff_diff_eq minus_mod_self2)
        ultimately show ?thesis using y(2) by simp
      qed simp
    next
      fix y assume "y \<in> insert x {y. x + step \<le> y \<and> y < e \<and> (y - (x + step)) mod step = 0}"
      then consider "y = x" | "x + step \<le> y" "y < e" "(y - (x + step)) mod step = 0" by auto
      then show "y \<in> {y. x \<le> y \<and> y < e \<and> (y - x) mod step = 0}"
      proof cases
        case 1 then show ?thesis using True by simp
      next
        case 2
        have "(y - x) mod step = 0" using 2(3) by (metis diff_diff_eq minus_mod_self2)
        then show ?thesis using 2 "1.prems" by simp
      qed
    qed
    then show ?thesis using True "1.prems" "1.IH" by (simp add: sampled_positions.simps[of x])
  qed
qed


lemma sampled_positions_unit: "sampled_positions x e 1 = [x..e - 1]"
proof (induction x e "1::int" rule: sampled_positions.induct)
  case (1 x e)
  show ?case
  proof (cases "x < e")
    case True
    then show ?thesis using 1 by (simp add: sampled_positions.simps[of x] upto_rec1[of x])
  next
    case False
    then show ?thesis by (simp add: sampled_positions.simps[of x])
  qed
qed

lemma for_loop_unit: "for_loop x e 1 body = run_all body [x..e - 1]"
  by (simp add: for_loop_run_all_fun sampled_positions_unit)

lemma fold_snoc: "fold (\<lambda>x xs. xs @ [x]) ys zs = zs @ ys"
  by (induction ys arbitrary: zs) simp_all

lemma loop_positions_eq:
  assumes d: "0 < d"
  shows "loop_positions n e d = Some (sampled_positions n e d)"
proof -
  have "run_all (\<lambda>x xs. Some (xs @ [x])) (sampled_positions n e d) []
        = Some (fold (\<lambda>x xs. xs @ [x]) (sampled_positions n e d) [])"
    by (rule run_all_pure) (rule refl)
  then have "run_all (\<lambda>x xs. Some (xs @ [x])) (sampled_positions n e d) []
        = Some (sampled_positions n e d)"
    by (simp only: fold_snoc append_Nil)
  then show ?thesis
    unfolding loop_positions_def by (simp only: for_loop_run_all[OF d])
qed

lemma stepped_window_set: "0 < d \<Longrightarrow> set (sampled_positions n e d) = stepped_window n e d"
  by (simp add: sampled_positions_set stepped_window_def)

lemma sample_rank:
  assumes "0 < d" "ek - nk \<le> ks * d" "xk \<in> set (sampled_positions nk ek d)"
  shows "nk \<le> xk" "xk < ek" "0 \<le> (xk - nk) sdiv d" "(xk - nk) sdiv d < ks"
    "(xk - nk) sdiv d = (xk - nk) div d"
proof -
  from assms(3) have m: "nk \<le> xk" "xk < ek" "(xk - nk) mod d = 0"
    by (simp_all add: sampled_positions_set[OF assms(1)])
  show "nk \<le> xk" "xk < ek" by (rule m)+
  show e: "(xk - nk) sdiv d = (xk - nk) div d" using m(1) assms(1) by (simp add: sdiv_nonneg)
  show "0 \<le> (xk - nk) sdiv d" unfolding e using m(1) assms(1) by (simp add: pos_imp_zdiv_nonneg_iff)
  have "(xk - nk) div d * d = xk - nk" using m(3) by (simp add: mod_eq_0_iff_dvd)
  then have "(xk - nk) div d * d < ks * d" using m(2) assms(2) by linarith
  then show "(xk - nk) sdiv d < ks" unfolding e using assms(1) by (simp add: mult_less_cancel_right)
qed

subsection \<open>The modelled resolver\<close>

lemma sub_axis:
  fixes p L d :: int
  assumes "0 \<le> p" "p < L" "0 < d"
  defines "m \<equiv> p mod d" and "q \<equiv> p div d"
  defines "Lp \<equiv> (L - m + d - 1) div d"
  shows "0 \<le> m" "m < d" "p = q * d + m" "0 \<le> q" "q < Lp" "(Lp - 1) * d + m < L" "L div d \<le> Lp"
proof -
  show m0: "0 \<le> m" and m1: "m < d" using assms(3) by (simp_all add: m_def)
  show pq: "p = q * d + m" by (simp add: m_def q_def)
  show "0 \<le> q" using assms(1,3) by (simp add: q_def pos_imp_zdiv_nonneg_iff)
  have "(q + 1) * d \<le> L - m + d - 1" using pq assms(2) by (simp add: algebra_simps)
  then have "(q + 1) * d div d \<le> Lp" unfolding Lp_def by (rule zdiv_mono1) (rule assms(3))
  then show "q < Lp" using assms(3) by simp
  have "Lp * d \<le> L - m + d - 1" unfolding Lp_def
    using pos_mod_sign[OF assms(3), of "L - m + d - 1"]
    by (simp add: minus_mod_eq_div_mult[symmetric])
  then show "(Lp - 1) * d + m < L" by (simp add: algebra_simps)
  have "L \<le> L - m + d - 1" using m1 by simp
  then show "L div d \<le> Lp" unfolding Lp_def by (rule zdiv_mono1) (rule assms(3))
qed

lemma noncausal_index:
  fixes q Lp r ks :: int
  assumes "0 \<le> q" "q < Lp" "0 \<le> r" "r < ks"
  defines "sidx \<equiv> max 0 (if q - r + ks - Lp > 0 then q - r - (q - r + ks - Lp) else q - r)"
  shows "0 \<le> sidx" and "sidx \<le> q" and "q < sidx + ks" and "ks \<le> Lp \<Longrightarrow> sidx + ks \<le> Lp"
  using assms by (auto simp: sidx_def max_def)

lemma causal_index:
  fixes q ks :: int
  assumes "0 \<le> q" "1 \<le> ks"
  defines "sidx \<equiv> max 0 (q - ks + 1)"
  shows "0 \<le> sidx" "sidx \<le> q" "q < sidx + ks"
  using assms by (auto simp: sidx_def max_def)

lemma half_nonneg: "1 \<le> ks \<Longrightarrow> 0 \<le> (ks::int) sdiv 2 \<and> ks sdiv 2 < ks"
  by (simp add: sdiv_nonneg)

lemma get_window_start_eq:
  "get_window_start p L ks r d c =
     (if c then max 0 (p div d - ks + 1)
      else max 0 (if p div d - r + ks - (L - p mod d + d - 1) div d > 0
                  then p div d - r - (p div d - r + ks - (L - p mod d + d - 1) div d)
                  else p div d - r)) * d + p mod d"
  by (simp add: get_window_start_def Let_def)

lemma window_start_le:
  assumes "0 \<le> p" "p < L" "0 < d" "1 \<le> ks"
  shows "get_window_start p L ks (ks sdiv 2) d c \<le> p"
    and "(p - get_window_start p L ks (ks sdiv 2) d c) mod d = 0"
proof -
  note sa = sub_axis[OF assms(1,2,3)]
  note hn = half_nonneg[OF assms(4)]
  define sidx where "sidx = (if c then max 0 (p div d - ks + 1) else
      max 0 (if p div d - ks sdiv 2 + ks - (L - p mod d + d - 1) div d > 0
             then p div d - ks sdiv 2 - (p div d - ks sdiv 2 + ks - (L - p mod d + d - 1) div d)
             else p div d - ks sdiv 2))"
  have s: "get_window_start p L ks (ks sdiv 2) d c = sidx * d + p mod d"
    unfolding sidx_def by (rule get_window_start_eq)
  have le: "sidx \<le> p div d"
    unfolding sidx_def
    using causal_index(2)[OF sa(4) assms(4)]
      noncausal_index(2)[OF sa(4) sa(5) conjunct1[OF hn] conjunct2[OF hn]]
    by simp
  have "sidx * d + p mod d \<le> (p div d) * d + p mod d" using le assms(3) by (rule scale_le)
  then show "get_window_start p L ks (ks sdiv 2) d c \<le> p" unfolding s by simp
  have "p - (sidx * d + p mod d) = (p div d - sidx) * d"
    by (simp add: algebra_simps minus_mod_eq_mult_div[symmetric])
  then show "(p - get_window_start p L ks (ks sdiv 2) d c) mod d = 0" unfolding s by simp
qed

lemma window_width:
  assumes "0 \<le> p" "p < L" "0 < d" "1 \<le> ks"
  shows "get_window_end p (get_window_start p L ks (ks sdiv 2) d c) L ks (ks sdiv 2) d c
         - get_window_start p L ks (ks sdiv 2) d c \<le> ks * d"
proof (cases c)
  case False
  then show ?thesis by (simp add: get_window_end_def)
next
  case True
  note sa = sub_axis[OF assms(1,2,3)]
  define sidx where "sidx = max 0 (p div d - ks + 1)"
  note ci = causal_index[OF sa(4) assms(4), folded sidx_def]
  have s: "get_window_start p L ks (ks sdiv 2) d c = sidx * d + p mod d"
    using True by (simp add: get_window_start_eq sidx_def)
  have "(p div d - sidx) * d \<le> (ks - 1) * d"
    using ci(3) assms(3) by (intro mult_right_mono) simp_all
  then have "p div d * d - sidx * d + 1 \<le> ks * d"
    using assms(3) by (simp add: algebra_simps)
  moreover have "p + 1 - (sidx * d + p mod d) = p div d * d - sidx * d + 1"
    by (simp add: algebra_simps minus_mod_eq_mult_div[symmetric])
  ultimately show ?thesis using True unfolding s by (simp add: get_window_end_def)
qed

lemma window_contains:
  assumes "0 \<le> p" "p < L" "0 < d" "1 \<le> ks"
  shows "p < get_window_end p (get_window_start p L ks (ks sdiv 2) d c) L ks (ks sdiv 2) d c"
proof (cases c)
  case True
  then show ?thesis by (simp add: get_window_end_def)
next
  case False
  note sa = sub_axis[OF assms(1,2,3)]
  note hn = half_nonneg[OF assms(4)]
  define sidx where "sidx =
      max 0 (if p div d - ks sdiv 2 + ks - (L - p mod d + d - 1) div d > 0
             then p div d - ks sdiv 2 - (p div d - ks sdiv 2 + ks - (L - p mod d + d - 1) div d)
             else p div d - ks sdiv 2)"
  have s: "get_window_start p L ks (ks sdiv 2) d c = sidx * d + p mod d"
    using False by (simp add: get_window_start_eq sidx_def)
  have "p div d < sidx + ks" unfolding sidx_def
    by (rule noncausal_index(3)[OF sa(4) sa(5) conjunct1[OF hn] conjunct2[OF hn]])
  then have "p div d * d < (sidx + ks) * d" using assms(3) by (intro mult_strict_right_mono)
  then have "p div d * d < sidx * d + ks * d" by (simp add: distrib_right)
  moreover have "p div d * d + p mod d = p" by simp
  ultimately have "p < sidx * d + p mod d + ks * d" by linarith
  then show ?thesis using False assms(2) unfolding s by (simp add: get_window_end_def)
qed

lemma window_in_axis:
  assumes "0 \<le> p" "p < L" "0 < d" "1 \<le> ks"
  shows "0 \<le> get_window_start p L ks (ks sdiv 2) d c"
    and "get_window_end p (get_window_start p L ks (ks sdiv 2) d c) L ks (ks sdiv 2) d c \<le> L"
proof -
  note sa = sub_axis[OF assms(1,2,3)]
  note hn = half_nonneg[OF assms(4)]
  show "get_window_end p (get_window_start p L ks (ks sdiv 2) d c) L ks (ks sdiv 2) d c \<le> L"
    using assms(2) by (simp add: get_window_end_def)
  define sidx where "sidx = (if c then max 0 (p div d - ks + 1) else
      max 0 (if p div d - ks sdiv 2 + ks - (L - p mod d + d - 1) div d > 0
             then p div d - ks sdiv 2 - (p div d - ks sdiv 2 + ks - (L - p mod d + d - 1) div d)
             else p div d - ks sdiv 2))"
  have s: "get_window_start p L ks (ks sdiv 2) d c = sidx * d + p mod d"
    unfolding sidx_def by (rule get_window_start_eq)
  have "0 \<le> sidx" by (simp add: sidx_def)
  then have "0 \<le> sidx * d" using assms(3) by simp
  then show "0 \<le> get_window_start p L ks (ks sdiv 2) d c" using sa(1) unfolding s by simp
qed


subsection \<open>The loop nest of one output element\<close>

lemma accumulate_in_bounds:
  assumes "0 \<le> weightsIndex P woff nk ni nj xk xi xj"
    "weightsIndex P woff nk ni nj xk xi xj < int (length weights)"
    "0 \<le> valuesIndex P voff xk xi xj" "valuesIndex P voff xk xi xj < int (length values)"
  shows "accumulate weights values P woff voff nk ni nj xk xi xj updt
         = Some (updt + product_term weights values P woff voff nk ni nj (xk, xi, xj))"
  using assms by (simp add: accumulate_def read_at_def product_term_def)

lemma inner_loops:
  assumes d: "0 < dilation_0 P" "0 < dilation_1 P" "0 < dilation_2 P"
    and inb: "\<And>xk xi xj. xk \<in> set (sampled_positions nk ek (dilation_0 P)) \<Longrightarrow>
        xi \<in> set (sampled_positions ni ei (dilation_1 P)) \<Longrightarrow>
        xj \<in> set (sampled_positions nj ej (dilation_2 P)) \<Longrightarrow>
        0 \<le> weightsIndex P woff nk ni nj xk xi xj \<and>
        weightsIndex P woff nk ni nj xk xi xj < int (length weights) \<and>
        0 \<le> valuesIndex P voff xk xi xj \<and> valuesIndex P voff xk xi xj < int (length values)"
  shows "for_loop nk ek (dilation_0 P) (\<lambda>xk.
          for_loop ni ei (dilation_1 P) (\<lambda>xi.
            for_loop nj ej (dilation_2 P) (\<lambda>xj.
              accumulate weights values P woff voff nk ni nj xk xi xj))) 0
         = Some (ordered_sum weights values P woff voff nk ni nj
                   (window_triples P nk ni nj ek ei ej))"
proof -
  let ?g = "\<lambda>xk xi xj updt. updt + product_term weights values P woff voff nk ni nj (xk, xi, xj)"
  have "run_all (\<lambda>xk. run_all (\<lambda>xi. run_all (\<lambda>xj.
          accumulate weights values P woff voff nk ni nj xk xi xj)
            (sampled_positions nj ej (dilation_2 P)))
            (sampled_positions ni ei (dilation_1 P)))
            (sampled_positions nk ek (dilation_0 P)) 0
        = Some (fold (\<lambda>xk. fold (\<lambda>xi. fold (?g xk xi) (sampled_positions nj ej (dilation_2 P)))
            (sampled_positions ni ei (dilation_1 P))) (sampled_positions nk ek (dilation_0 P)) 0)"
    by (rule run_all_nested) (use inb in \<open>simp add: accumulate_in_bounds\<close>)
  moreover have "fold (\<lambda>xk. fold (\<lambda>xi. fold (?g xk xi) (sampled_positions nj ej (dilation_2 P)))
            (sampled_positions ni ei (dilation_1 P))) (sampled_positions nk ek (dilation_0 P)) 0
         = ordered_sum weights values P woff voff nk ni nj (window_triples P nk ni nj ek ei ej)"
    unfolding ordered_sum_def window_triples_def by (rule fold_triples)
  ultimately show ?thesis
    by (simp only: for_loop_run_all_fun[OF d(1)] for_loop_run_all_fun[OF d(2)]
        for_loop_run_all_fun[OF d(3)])
qed

lemma write_at_in_bounds:
  "0 \<le> idx \<Longrightarrow> idx < int (length buf) \<Longrightarrow> write_at buf idx v = Some (buf[nat idx := v])"
  by (simp add: write_at_def)

lemma weightsIndex_bound:
  assumes "weights_fit weights P" "in_range P b h k i j"
    and "0 \<le> t0" "t0 < kernel_size_0 P" "0 \<le> t1" "t1 < kernel_size_1 P"
    and "0 \<le> t2" "t2 < kernel_size_2 P"
  shows "0 \<le> weightsOffset P b h k i j + (t0 * (kernel_size_1 P * kernel_size_2 P) + t1 * kernel_size_2 P + t2)
       \<and> weightsOffset P b h k i j + (t0 * (kernel_size_1 P * kernel_size_2 P) + t1 * kernel_size_2 P + t2)
         < int (length weights)"
proof -
  note s1 = radix_bound[OF assms(3,4,5,6)]
  note s2 = radix_bound[OF conjunct1[OF s1] conjunct2[OF s1] assms(7,8)]
  have e: "(t0 * kernel_size_1 P + t1) * kernel_size_2 P + t2
      = t0 * (kernel_size_1 P * kernel_size_2 P) + t1 * kernel_size_2 P + t2"
    by (simp add: algebra_simps)
  have "t0 * (kernel_size_1 P * kernel_size_2 P) + t1 * kernel_size_2 P + t2 \<in> {0..<kernel_volume P}"
    using s2 unfolding e kernel_volume_def by simp
  then show ?thesis using assms(1,2) unfolding weights_fit_def in_range_def by simp
qed

lemma axis_contractD:
  assumes "axis_contract ws we extent ks r d c" "0 \<le> p" "p < extent"
  shows "0 \<le> ws p extent ks r d c" "we p (ws p extent ks r d c) extent ks r d c \<le> extent"
    "we p (ws p extent ks r d c) extent ks r d c - ws p extent ks r d c \<le> ks * d"
  using assms by (auto simp: axis_contract_def axis_window_def Let_def)

lemma channel_step:
  assumes pre: "preconditions ws we weights values output0 P"
    and c: "in_range P b h k i j"
    and d: "0 \<le> d" "d < dim P"
    and len: "int (length (output :: 'a::{zero,plus,times} list)) = total_coords P * dim P"
  shows "channel_body weights values P b h k i j
           (fst (window_0 ws we P k)) (fst (window_1 ws we P i)) (fst (window_2 ws we P j))
           (snd (window_0 ws we P k)) (snd (window_1 ws we P i)) (snd (window_2 ws we P j)) d output
         = Some (output[nat (linearIndex P b h k i j d) :=
                   channel_value ws we weights values P b h k i j d])"
proof -
  from pre have dil: "0 < dilation_0 P" "0 < dilation_1 P" "0 < dilation_2 P"
    and rc: "resolver_contract ws we P" and wf: "weights_fit weights P"
    and lv: "int (length values) = total_coords P * dim P"
    by (simp_all add: preconditions_def)
  from c have r: "0 \<le> b" "b < batch_size P" "0 \<le> h" "h < heads P" "0 \<le> k" "k < depth P"
    "0 \<le> i" "i < height P" "0 \<le> j" "j < width P" by (simp_all add: in_range_def)
  obtain nk ek where w0: "window_0 ws we P k = (nk, ek)" by (cases "window_0 ws we P k")
  obtain ni ei where w1: "window_1 ws we P i = (ni, ei)" by (cases "window_1 ws we P i")
  obtain nj ej where w2: "window_2 ws we P j = (nj, ej)" by (cases "window_2 ws we P j")
  from rc have ac: 
    "axis_contract ws we (depth P) (kernel_size_0 P) (neighborhood_size_0 P) (dilation_0 P) (is_causal_0 P)"
    "axis_contract ws we (height P) (kernel_size_1 P) (neighborhood_size_1 P) (dilation_1 P) (is_causal_1 P)"
    "axis_contract ws we (width P) (kernel_size_2 P) (neighborhood_size_2 P) (dilation_2 P) (is_causal_2 P)"
    by (simp_all add: resolver_contract_def)
  have b0: "0 \<le> nk" "ek \<le> depth P" "ek - nk \<le> kernel_size_0 P * dilation_0 P"
    using axis_contractD[OF ac(1) r(5,6)] w0 by (auto simp: window_0_def axis_window_def Let_def)
  have b1: "0 \<le> ni" "ei \<le> height P" "ei - ni \<le> kernel_size_1 P * dilation_1 P"
    using axis_contractD[OF ac(2) r(7,8)] w1 by (auto simp: window_1_def axis_window_def Let_def)
  have b2: "0 \<le> nj" "ej \<le> width P" "ej - nj \<le> kernel_size_2 P * dilation_2 P"
    using axis_contractD[OF ac(3) r(9,10)] w2 by (auto simp: window_2_def axis_window_def Let_def)
  have inb: "0 \<le> weightsIndex P (weightsOffset P b h k i j) nk ni nj xk xi xj \<and>
        weightsIndex P (weightsOffset P b h k i j) nk ni nj xk xi xj < int (length weights) \<and>
        0 \<le> valuesIndex P (valuesOffset P b h d) xk xi xj \<and>
        valuesIndex P (valuesOffset P b h d) xk xi xj < int (length values)"
    if m: "xk \<in> set (sampled_positions nk ek (dilation_0 P))"
       "xi \<in> set (sampled_positions ni ei (dilation_1 P))"
       "xj \<in> set (sampled_positions nj ej (dilation_2 P))" for xk xi xj
  proof -
    note k0 = sample_rank[OF dil(1) b0(3) m(1)]
    note k1 = sample_rank[OF dil(2) b1(3) m(2)]
    note k2 = sample_rank[OF dil(3) b2(3) m(3)]
    have "in_range P b h xk xi xj"
      using r b0 b1 b2 k0(1,2) k1(1,2) k2(1,2) by (simp add: in_range_def)
    from linearIndex_bound[OF this d] have v: "0 \<le> valuesIndex P (valuesOffset P b h d) xk xi xj \<and>
        valuesIndex P (valuesOffset P b h d) xk xi xj < int (length values)"
      by (simp add: valuesIndex_linear lv)
    have w: "weightsIndex P (weightsOffset P b h k i j) nk ni nj xk xi xj
        = weightsOffset P b h k i j + (((xk - nk) sdiv dilation_0 P) * (kernel_size_1 P * kernel_size_2 P)
            + ((xi - ni) sdiv dilation_1 P) * kernel_size_2 P + ((xj - nj) sdiv dilation_2 P))"
      by (simp add: weightsIndex_def)
    show ?thesis unfolding w
      using weightsIndex_bound[OF wf c k0(3,4) k1(3,4) k2(3,4)] v by simp
  qed
  note il = inner_loops[OF dil inb]
  note lb = linearIndex_bound[OF c d]
  show ?thesis
    using il lb len
    by (simp add: channel_body_def w0 w1 w2 channel_value_def write_at_in_bounds)
qed

subsection \<open>The run of the kernel\<close>

lemma fold_update_length:
  "length (fold (\<lambda>p out. out[f p := g p]) ps out) = length out"
  by (induction ps arbitrary: out) simp_all

lemma fold_update_other:
  "i \<notin> f ` set ps \<Longrightarrow> fold (\<lambda>p out. out[f p := g p]) ps out ! i = out ! i"
  by (induction ps arbitrary: out) auto

lemma fold_update_nth:
  assumes "distinct (map f ps)" "p \<in> set ps" "f p < length out"
  shows "fold (\<lambda>p out. out[f p := g p]) ps out ! f p = g p"
  using assms
proof (induction ps arbitrary: out)
  case Nil
  then show ?case by simp
next
  case (Cons q qs)
  show ?case
  proof (cases "p = q")
    case True
    then have "f p \<notin> f ` set qs" using Cons.prems(1) by auto
    then show ?thesis using True Cons.prems(3) by (simp add: fold_update_other)
  next
    case False
    then show ?thesis using Cons by simp
  qed
qed

lemma fold_product:
  "fold (\<lambda>x. fold (\<lambda>y. F x y) ys) xs s = fold (\<lambda>(x, y). F x y) (List.product xs ys) s"
proof (induction xs arbitrary: s)
  case Nil
  then show ?case by simp
next
  case (Cons x xs)
  have "fold (\<lambda>(x, y). F x y) (map (Pair x) ys) s = fold (F x) ys s" for s
    by (induction ys arbitrary: s) simp_all
  then show ?case using Cons by simp
qed

lemma coordinate_step:
  assumes pre: "preconditions ws we weights values output0 P"
    and x: "0 \<le> x" "x < total_coords P"
    and len: "int (length (output :: 'a::{zero,plus,times} list)) = total_coords P * dim P"
  shows "coordinate_body ws we weights values P x output
         = Some (fold (\<lambda>d out. out[nat (output_offset P x d) :=
                          element_value ws we weights values P x d]) [0..dim P - 1] output)"
proof -
  obtain b h k i j where c: "coords P x = (b, h, k, i, j)" by (rule coords_cases)
  from pre have ps: "positive_shape P" by (simp add: preconditions_def)
  have ir: "in_range P b h k i j" by (rule coords_in_range[OF ps x c])
  let ?g = "\<lambda>d out. out[nat (linearIndex P b h k i j d) :=
                          channel_value ws we weights values P b h k i j d]"
  have "run_all (channel_body weights values P b h k i j
           (fst (window_0 ws we P k)) (fst (window_1 ws we P i)) (fst (window_2 ws we P j))
           (snd (window_0 ws we P k)) (snd (window_1 ws we P i)) (snd (window_2 ws we P j)))
          [0..dim P - 1] output
        = Some (fold ?g [0..dim P - 1] output)
        \<and> int (length (fold ?g [0..dim P - 1] output)) = total_coords P * dim P"
  proof (rule run_all_total[where I = "\<lambda>out. int (length out) = total_coords P * dim P"])
    show "int (length output) = total_coords P * dim P" by (rule len)
  next
    fix d and s :: "'a list"
    assume "d \<in> set [0..dim P - 1]" "int (length s) = total_coords P * dim P"
    then show "channel_body weights values P b h k i j
           (fst (window_0 ws we P k)) (fst (window_1 ws we P i)) (fst (window_2 ws we P j))
           (snd (window_0 ws we P k)) (snd (window_1 ws we P i)) (snd (window_2 ws we P j)) d s
           = Some (?g d s) \<and> int (length (?g d s)) = total_coords P * dim P"
      using channel_step[OF pre ir, of d s] by simp
  qed
  then show ?thesis
    by (simp add: coordinate_body_def c Let_def for_loop_unit output_offset_def element_value_def
        window_0_def window_1_def window_2_def axis_window_def)
qed

lemma launch_result:
  assumes pre: "preconditions ws we weights values (output :: 'a::{zero,plus,times} list) P"
  shows "launch ws we weights values output P
         = Some (fold (\<lambda>(x, d) out. out[nat (output_offset P x d) :=
                          element_value ws we weights values P x d]) (output_writes P) output)"
proof -
  let ?g = "\<lambda>x. fold (\<lambda>d out. out[nat (output_offset P x d) :=
                          element_value ws we weights values P x d]) [0..dim P - 1]"
  from pre have len: "int (length output) = total_coords P * dim P"
    by (simp add: preconditions_def)
  have "run_all (coordinate_body ws we weights values P) [0..total_coords P - 1] output
        = Some (fold ?g [0..total_coords P - 1] output)
        \<and> int (length (fold ?g [0..total_coords P - 1] output)) = total_coords P * dim P"
  proof (rule run_all_total[where I = "\<lambda>out. int (length out) = total_coords P * dim P"])
    show "int (length output) = total_coords P * dim P" by (rule len)
  next
    fix x and s :: "'a list"
    assume "x \<in> set [0..total_coords P - 1]" "int (length s) = total_coords P * dim P"
    then show "coordinate_body ws we weights values P x s = Some (?g x s)
        \<and> int (length (?g x s)) = total_coords P * dim P"
      using coordinate_step[OF pre, of x s] by (simp add: fold_update_length)
  qed
  then show ?thesis
    by (simp add: launch_def total_coords_def[symmetric] for_loop_unit output_writes_def fold_product)
qed

lemma output_writes_member:
  "(x, d) \<in> set (output_writes P) \<longleftrightarrow> 0 \<le> x \<and> x < total_coords P \<and> 0 \<le> d \<and> d < dim P"
  by (auto simp: output_writes_def)

lemma output_offset_inj:
  assumes "(x, d) \<in> set (output_writes P)" "(x', d') \<in> set (output_writes P)"
    and "nat (output_offset P x d) = nat (output_offset P x' d')"
  shows "x = x' \<and> d = d'"
proof -
  from assms(1,2) have r: "0 \<le> x" "0 \<le> d" "d < dim P" "0 \<le> x'" "0 \<le> d'" "d' < dim P"
    by (simp_all add: output_writes_member)
  have "0 \<le> x * dim P + d" "0 \<le> x' * dim P + d'" using r by simp_all
  then have "x * dim P + d = x' * dim P + d'" using assms(3) by (simp add: output_offset_eq)
  from digit_unique[OF r(2,3) r(5,6) this] show ?thesis .
qed

lemma output_writes_distinct:
  "distinct (map (\<lambda>(x, d). nat (output_offset P x d)) (output_writes P))"
proof -
  have "distinct (output_writes P)" by (simp add: output_writes_def distinct_product)
  moreover have "inj_on (\<lambda>(x, d). nat (output_offset P x d)) (set (output_writes P))"
    by (rule inj_onI) (use output_offset_inj in \<open>auto\<close>)
  ultimately show ?thesis by (simp add: distinct_map)
qed

lemma output_writes_cover:
  assumes "0 < dim P"
  shows "(\<lambda>(x, d). output_offset P x d) ` set (output_writes P) = {0..<total_coords P * dim P}"
proof (intro set_eqI iffI)
  fix t assume "t \<in> (\<lambda>(x, d). output_offset P x d) ` set (output_writes P)"
  then obtain x d where m: "(x, d) \<in> set (output_writes P)" and t: "t = x * dim P + d"
    by (auto simp: output_offset_eq)
  from m have r: "0 \<le> x" "x < total_coords P" "0 \<le> d" "d < dim P"
    by (simp_all add: output_writes_member)
  from radix_bound[OF r] show "t \<in> {0..<total_coords P * dim P}" unfolding t by simp
next
  fix t assume "t \<in> {0..<total_coords P * dim P}"
  then have t: "0 \<le> t" "t < total_coords P * dim P" by simp_all
  have "0 \<le> t div dim P" using t(1) assms by (simp add: pos_imp_zdiv_nonneg_iff)
  moreover have "t div dim P < total_coords P"
    using div_less_bound[OF t assms] t(1) assms by (simp add: sdiv_nonneg)
  moreover have "0 \<le> t mod dim P" "t mod dim P < dim P" using assms by simp_all
  ultimately have "(t div dim P, t mod dim P) \<in> set (output_writes P)"
    by (simp add: output_writes_member)
  moreover have "output_offset P (t div dim P) (t mod dim P) = t" by (simp add: output_offset_eq)
  ultimately show "t \<in> (\<lambda>(x, d). output_offset P x d) ` set (output_writes P)" by force
qed

lemma fold_writes_nth:
  assumes "(x, d) \<in> set (output_writes P)" "nat (output_offset P x d) < length out"
  shows "fold (\<lambda>(x, d) out. out[nat (output_offset P x d) := v x d]) (output_writes P) out
           ! nat (output_offset P x d) = v x d"
proof -
  have e: "(\<lambda>(x, d) out. out[nat (output_offset P x d) := v x d])
      = (\<lambda>p out. out[(\<lambda>(x, d). nat (output_offset P x d)) p := (\<lambda>(x, d). v x d) p])"
    by (auto simp: fun_eq_iff)
  show ?thesis unfolding e
    using fold_update_nth[OF output_writes_distinct assms(1), of out "\<lambda>(x, d). v x d"] assms(2)
    by simp
qed

lemma fold_writes_length:
  "length (fold (\<lambda>(x, d) out. out[nat (output_offset P x d) := v x d]) ps out) = length out"
  by (induction ps arbitrary: out) auto

lemma launch_element:
  assumes pre: "preconditions ws we weights values (output :: 'a::{zero,plus,times} list) P"
    and c: "in_range P b h k i j" and d: "0 \<le> d" "d < dim P"
  shows "\<exists>out. launch ws we weights values output P = Some out \<and> length out = length output \<and>
           out ! nat (linearIndex P b h k i j d) = channel_value ws we weights values P b h k i j d"
proof -
  from pre have ps: "positive_shape P" and len: "int (length output) = total_coords P * dim P"
    by (simp_all add: preconditions_def)
  define x where "x = flat_index P b h k i j"
  have cx: "coords P x = (b, h, k, i, j)" unfolding x_def by (rule coords_of_flat[OF ps c])
  note fb = flat_index_bound[OF c, folded x_def]
  have m: "(x, d) \<in> set (output_writes P)" using fb d by (simp add: output_writes_member)
  have oo: "output_offset P x d = linearIndex P b h k i j d" by (simp add: output_offset_def cx)
  have ev: "element_value ws we weights values P x d = channel_value ws we weights values P b h k i j d"
    by (simp add: element_value_def cx)
  have "nat (output_offset P x d) < length output"
    using linearIndex_bound[OF c d] len unfolding oo by (simp add: nat_less_iff)
  from fold_writes_nth[OF m this, of "element_value ws we weights values P"]
  show ?thesis
    by (simp add: launch_result[OF pre] fold_writes_length oo ev)
qed




subsection \<open>The order and the set of the triples of a window\<close>

lemma sampled_positions_increasing: "0 < d \<Longrightarrow> sorted_wrt (<) (sampled_positions n e d)"
  by (simp add: sampled_positions_nth sorted_wrt_map sorted_wrt_iff_nth_less)

lemma sorted_wrt_concat_map:
  assumes "sorted_wrt (<) xs"
    and "\<And>x. x \<in> set xs \<Longrightarrow> sorted_wrt R (h x)"
    and "\<And>x y a b. x \<in> set xs \<Longrightarrow> y \<in> set xs \<Longrightarrow> x < y \<Longrightarrow> a \<in> set (h x) \<Longrightarrow>
           b \<in> set (h y) \<Longrightarrow> R a b"
  shows "sorted_wrt R (concat (map h xs))"
  using assms
proof (induction xs)
  case Nil
  then show ?case by simp
next
  case (Cons x xs)
  have "sorted_wrt R (concat (map h xs))"
  proof (rule Cons.IH)
    show "sorted_wrt (<) xs" using Cons.prems(1) by simp
  next
    fix y assume "y \<in> set xs"
    then show "sorted_wrt R (h y)" using Cons.prems(2) by simp
  next
    fix y z a b assume "y \<in> set xs" "z \<in> set xs" "y < z" "a \<in> set (h y)" "b \<in> set (h z)"
    then show "R a b" using Cons.prems(3)[of y z a b] by simp
  qed
  moreover have "sorted_wrt R (h x)" using Cons.prems(2) by simp
  moreover have "R a b" if "a \<in> set (h x)" "b \<in> set (concat (map h xs))" for a b
  proof -
    from that(2) obtain y where y: "y \<in> set xs" "b \<in> set (h y)" by auto
    then have "x < y" using Cons.prems(1) by auto
    then show ?thesis using Cons.prems(3)[of x y a b] y that(1) by simp
  qed
  ultimately show ?case by (simp add: sorted_wrt_append)
qed

lemma window_triples_row_major:
  assumes "0 < dilation_0 P" "0 < dilation_1 P" "0 < dilation_2 P"
  shows "sorted_wrt row_major_before (window_triples P nk ni nj ek ei ej)"
  unfolding window_triples_def
proof (rule sorted_wrt_concat_map[OF sampled_positions_increasing[OF assms(1)]])
  fix xk
  show "sorted_wrt row_major_before
          (concat (map (\<lambda>xi. map (\<lambda>xj. (xk, xi, xj)) (sampled_positions nj ej (dilation_2 P)))
             (sampled_positions ni ei (dilation_1 P))))"
  proof (rule sorted_wrt_concat_map[OF sampled_positions_increasing[OF assms(2)]])
    fix xi
    show "sorted_wrt row_major_before
            (map (\<lambda>xj. (xk, xi, xj)) (sampled_positions nj ej (dilation_2 P)))"
      using sampled_positions_increasing[OF assms(3), of nj ej]
      by (simp add: sorted_wrt_map row_major_before_def)
  next
    fix x y :: int and a b
    assume "x < y" "a \<in> set (map (\<lambda>xj. (xk, x, xj)) (sampled_positions nj ej (dilation_2 P)))"
      "b \<in> set (map (\<lambda>xj. (xk, y, xj)) (sampled_positions nj ej (dilation_2 P)))"
    then show "row_major_before a b" by (auto simp: row_major_before_def)
  qed
next
  fix x y :: int and a b
  assume "x < y"
    "a \<in> set (concat (map (\<lambda>xi. map (\<lambda>xj. (x, xi, xj)) (sampled_positions nj ej (dilation_2 P)))
             (sampled_positions ni ei (dilation_1 P))))"
    "b \<in> set (concat (map (\<lambda>xi. map (\<lambda>xj. (y, xi, xj)) (sampled_positions nj ej (dilation_2 P)))
             (sampled_positions ni ei (dilation_1 P))))"
  then show "row_major_before a b" by (auto simp: row_major_before_def)
qed

lemma window_triples_set:
  assumes "0 < dilation_0 P" "0 < dilation_1 P" "0 < dilation_2 P"
  shows "set (window_triples P nk ni nj ek ei ej)
         = stepped_window nk ek (dilation_0 P) \<times> stepped_window ni ei (dilation_1 P)
           \<times> stepped_window nj ej (dilation_2 P)"
  unfolding window_triples_def
  by (auto simp: stepped_window_set[OF assms(1)] stepped_window_set[OF assms(2)]
      stepped_window_set[OF assms(3)])

lemma ordered_sum_foldl:
  "ordered_sum weights vs P woff voff nk ni nj ts =
     foldl (\<lambda>updt (xk, xi, xj).
              updt + weights ! nat (weightsIndex P woff nk ni nj xk xi xj) *
                     vs ! nat (valuesIndex P voff xk xi xj)) 0 ts"
proof -
  have "(\<lambda>updt t. updt + product_term weights vs P woff voff nk ni nj t)
      = (\<lambda>updt (xk, xi, xj).
              updt + weights ! nat (weightsIndex P woff nk ni nj xk xi xj) *
                     vs ! nat (valuesIndex P voff xk xi xj))"
    by (auto simp: fun_eq_iff product_term_def)
  then show ?thesis by (simp only: ordered_sum_def)
qed

lemma weightsIndex_enum:
  assumes "0 < dilation_0 P" "0 < dilation_1 P" "0 < dilation_2 P"
    and "nk \<le> xk" "ni \<le> xi" "nj \<le> xj"
  shows "weightsIndex P woff nk ni nj xk xi xj = woff + enum_index P nk ni nj xk xi xj"
  using assms by (simp add: weightsIndex_def enum_index_def sdiv_nonneg algebra_simps)

lemma enum_index_bound:
  assumes d: "0 < dilation_0 P" "0 < dilation_1 P" "0 < dilation_2 P"
    and w: "ek - nk \<le> kernel_size_0 P * dilation_0 P" "ei - ni \<le> kernel_size_1 P * dilation_1 P"
      "ej - nj \<le> kernel_size_2 P * dilation_2 P"
    and m: "xk \<in> stepped_window nk ek (dilation_0 P)" "xi \<in> stepped_window ni ei (dilation_1 P)"
      "xj \<in> stepped_window nj ej (dilation_2 P)"
  shows "0 \<le> enum_index P nk ni nj xk xi xj \<and> enum_index P nk ni nj xk xi xj < kernel_volume P"
proof -
  note k0 = sample_rank[OF d(1) w(1) m(1)[folded stepped_window_set[OF d(1)]]]
  note k1 = sample_rank[OF d(2) w(2) m(2)[folded stepped_window_set[OF d(2)]]]
  note k2 = sample_rank[OF d(3) w(3) m(3)[folded stepped_window_set[OF d(3)]]]
  note s1 = radix_bound[OF k0(3,4) k1(3,4)]
  note s2 = radix_bound[OF conjunct1[OF s1] conjunct2[OF s1] k2(3,4)]
  have "enum_index P nk ni nj xk xi xj
      = ((xk - nk) sdiv dilation_0 P * kernel_size_1 P + (xi - ni) sdiv dilation_1 P)
          * kernel_size_2 P + (xj - nj) sdiv dilation_2 P"
    by (simp add: enum_index_def k0(5) k1(5) k2(5) algebra_simps)
  then show ?thesis using s2 by (simp add: kernel_volume_def)
qed

subsection \<open>Chunks of the coordinate loop\<close>

text \<open>
  Running the chunks \<open>[n, m)\<close> and \<open>[m, e)\<close> one after the other is running \<open>[n, e)\<close>:
  the result of \<^verbatim>\<open>launch\<close> does not depend on where \<^verbatim>\<open>at::parallel_for\<close> cuts
  the range, as long as the chunks run in increasing order.
\<close>

lemma run_all_append:
  "run_all body (xs @ ys) s = (case run_all body xs s of None \<Rightarrow> None | Some s' \<Rightarrow> run_all body ys s')"
  by (induction xs arbitrary: s) (simp_all split: option.split)

lemma for_loop_chunks:
  assumes "n \<le> m" "m \<le> e"
  shows "for_loop n e 1 body s =
           (case for_loop n m 1 body s of None \<Rightarrow> None | Some s' \<Rightarrow> for_loop m e 1 body s')"
proof -
  have "[n..e - 1] = [n..m - 1] @ [m..e - 1]"
    using assms upto_split1[of n m "e - 1"] by (cases "m = e") simp_all
  then show ?thesis by (simp only: for_loop_unit run_all_append)
qed

subsection \<open>The modelled resolver meets the contract of the kernel\<close>

lemma model_axis_contract:
  assumes k: "1 \<le> ks" and d1: "1 \<le> d"
  shows "axis_contract get_window_start get_window_end extent ks (ks sdiv 2) d c"
proof -
  have d: "0 < d" using d1 by simp
  show ?thesis
    unfolding axis_contract_def axis_window_def Let_def
  proof (intro ballI, simp only: prod.case, intro conjI)
    fix p assume "p \<in> {0..<extent}"
    then have p: "0 \<le> p" "p < extent" by simp_all
    show "0 \<le> get_window_start p extent ks (ks sdiv 2) d c"
      by (rule window_in_axis(1)[OF p d k])
    show "get_window_end p (get_window_start p extent ks (ks sdiv 2) d c) extent ks (ks sdiv 2) d c
          \<le> extent"
      by (rule window_in_axis(2)[OF p d k])
    show "get_window_end p (get_window_start p extent ks (ks sdiv 2) d c) extent ks (ks sdiv 2) d c
          - get_window_start p extent ks (ks sdiv 2) d c \<le> ks * d"
      by (rule window_width[OF p d k])
  qed
qed

lemma model_resolver_contract:
  assumes "1 \<le> kernel_size_0 P" "1 \<le> dilation_0 P" "1 \<le> kernel_size_1 P" "1 \<le> dilation_1 P"
    "1 \<le> kernel_size_2 P" "1 \<le> dilation_2 P"
  shows "resolver_contract get_window_start get_window_end P"
  unfolding resolver_contract_def neighborhood_size_0_def neighborhood_size_1_def
    neighborhood_size_2_def
  by (intro conjI model_axis_contract assms)

lemma demo_preconditions:
  "preconditions get_window_start get_window_end demo_weights demo_values demo_output demo_params"
proof -
  have "resolver_contract get_window_start get_window_end demo_params"
    by (rule model_resolver_contract) (simp_all add: demo_params_def)
  moreover have "weights_fit demo_weights demo_params"
    by (auto simp: weights_fit_def demo_weights_def demo_params_def kernel_volume_def
        weightsOffset_def)
  ultimately show ?thesis
    by (simp add: preconditions_def positive_shape_def total_coords_def demo_params_def
        demo_values_def demo_output_def)
qed

section \<open>The window boundary resolver\<close>

text \<open>
  The theorems of this section are about \<open>get_window_start\<close> and \<open>get_window_end\<close> as
  modelled from the specification. The neighborhood radius is \<open>kernel_size sdiv 2\<close>, as
  \<^verbatim>\<open>launch\<close> computes it, and kernel sizes are positive.
\<close>




text \<open>
  Claim C3. On a causal axis, for every position in \<open>[0, axis_extent)\<close>, the window ends
  right after the position (\<open>window_end - 1 = position\<close>); without dilation its start is
  \<open>max 0 (position - kernel_size + 1)\<close>; and under any dilation \<open>d \<ge> 1\<close> the positions
  that the loop samples are at most \<open>kernel_size\<close>, lie in \<open>[0, position]\<close> and end at
  \<open>position\<close>.
\<close>

theorem causal_window:
  assumes "0 \<le> p" "p < L" "1 \<le> d" "1 \<le> ks"
    and "s = get_window_start p L ks (ks sdiv 2) d True"
    and "e = get_window_end p s L ks (ks sdiv 2) d True"
  shows "e - 1 = p \<and> (d = 1 \<longrightarrow> s = max 0 (p - ks + 1)) \<and>
         (\<exists>xs. loop_positions s e d = Some xs \<and> int (length xs) \<le> ks \<and> xs \<noteq> [] \<and>
               last xs = p \<and> (\<forall>x\<in>set xs. 0 \<le> x \<and> x \<le> p))"
proof -
  have d: "0 < d" using assms(3) by simp
  have e: "e = p + 1" using assms(6) by (simp add: get_window_end_def)
  note a = window_start_le[OF assms(1,2) d assms(4), of True, folded assms(5)]
  note w = window_width[OF assms(1,2) d assms(4), of True, folded assms(5), folded assms(6)]
  note r = window_in_axis(1)[OF assms(1,2) d assms(4), of True, folded assms(5)]
  have s1: "d = 1 \<longrightarrow> s = max 0 (p - ks + 1)"
    using assms(5) by (simp add: get_window_start_eq)
  have cnt: "int (length (sampled_positions s e d)) \<le> ks"
    using sampled_positions_count_le[OF d w] assms(4) by (simp add: sampled_positions_length[OF d])
  have mem: "p \<in> set (sampled_positions s e d)"
    using a e by (simp add: sampled_positions_set[OF d])
  then have ne: "sampled_positions s e d \<noteq> []" by auto
  have bnd: "\<forall>x\<in>set (sampled_positions s e d). 0 \<le> x \<and> x \<le> p"
    using r e by (auto simp: sampled_positions_set[OF d])
  have "last (sampled_positions s e d) \<in> set (sampled_positions s e d)" using ne by simp
  then have l1: "last (sampled_positions s e d) \<le> p" using bnd by blast
  obtain n where xs: "sampled_positions s e d = map (\<lambda>t. s + int t * d) [0..<n]"
    using sampled_positions_nth[OF d] by blast
  from mem obtain t where t: "t < n" "p = s + int t * d" unfolding xs by auto
  have n0: "[0..<n] \<noteq> []" using t(1) by simp
  have "last (sampled_positions s e d) = s + int (n - 1) * d"
    unfolding xs using t(1) by (simp only: last_map[OF n0] last_upt) 
  moreover have "int t * d \<le> int (n - 1) * d" using t(1) d by (intro mult_right_mono) simp_all
  ultimately have "p \<le> last (sampled_positions s e d)" using t(2) by simp
  then have lst: "last (sampled_positions s e d) = p" using l1 by (rule order_antisym[rotated])
  have e1: "e - 1 = p" using e by simp
  show ?thesis
  proof (intro conjI exI)
    show "loop_positions s e d = Some (sampled_positions s e d)" by (rule loop_positions_eq[OF d])
  qed (rule e1 s1 cnt ne lst bnd)+
qed

theorem causal_window_witness:
  "get_window_start 8 9 3 (3 sdiv 2) 2 True = 4 \<and>
   get_window_end 8 4 9 3 (3 sdiv 2) 2 True = 9 \<and>
   (\<exists>xs. loop_positions 4 9 2 = Some xs \<and> int (length xs) \<le> 3 \<and> xs \<noteq> [] \<and> last xs = 8 \<and>
         (\<forall>x\<in>set xs. 0 \<le> x \<and> x \<le> 8))"
  using causal_window[of 8 9 2 3 4 9]
  by (simp add: get_window_start_def get_window_end_def signed_divide_int_def)

text \<open>
  Claim C4. For every position of an axis, in both causal modes, with
  \<open>1 \<le> kernel_size \<le> axis_extent\<close> and dilation \<open>d \<ge> 1\<close>: the loop that steps from
  \<open>window_start\<close> through \<open>[window_start, window_end)\<close> in increments of \<open>d\<close> samples
  \<open>\<lceil>(window_end - window_start) / d\<rceil>\<close> positions, and never more than \<open>kernel_size\<close>.
\<close>

theorem sample_count:
  assumes "0 \<le> p" "p < L" "1 \<le> ks" "ks \<le> L" "1 \<le> d"
    and "s = get_window_start p L ks (ks sdiv 2) d c"
    and "e = get_window_end p s L ks (ks sdiv 2) d c"
  shows "\<exists>xs. loop_positions s e d = Some xs \<and>
           int (length xs) = \<lceil>real_of_int (e - s) / real_of_int d\<rceil> \<and> int (length xs) \<le> ks"
proof -
  have d: "0 < d" using assms(5) by simp
  note w = window_width[OF assms(1,2) d assms(3), of c, folded assms(6), folded assms(7)]
  note le = sampled_positions_count_le[OF d w]
  note a = window_start_le(1)[OF assms(1,2) d assms(3), of c, folded assms(6)]
  have "s < e"
  proof (cases c)
    case True
    then show ?thesis using a assms(7) by (simp add: get_window_end_def)
  next
    case False
    have "0 < ks * d" using assms(3) d by simp
    then show ?thesis using False a assms(2,7) by (simp add: get_window_end_def)
  qed
  then have "0 \<le> - ((s - e) div d)" using d by (simp add: div_neg_pos_less0 less_imp_le)
  then have "int (length (sampled_positions s e d)) = - ((s - e) div d)"
    by (simp add: sampled_positions_length[OF d])
  then show ?thesis using le ceiling_count[OF d, of s e] by (simp add: loop_positions_eq[OF d])
qed

theorem sample_count_witness:
  "get_window_start 4 9 3 (3 sdiv 2) 2 False = 2 \<and>
   get_window_end 4 2 9 3 (3 sdiv 2) 2 False = 8 \<and>
   (\<exists>xs. loop_positions 2 8 2 = Some xs \<and>
         int (length xs) = \<lceil>real_of_int (8 - 2) / real_of_int 2\<rceil> \<and> int (length xs) \<le> 3)"
  using sample_count[of 4 9 3 2 2 False 8]
  by (simp add: get_window_start_def get_window_end_def signed_divide_int_def)

text \<open>
  Claim C5. For every position of an axis, in both causal modes, with
  \<open>1 \<le> kernel_size \<le> axis_extent\<close> and dilation \<open>d \<ge> 1\<close>:
  \<open>position \<equiv> window_start (mod d)\<close>, \<open>window_start \<le> position < window_end\<close>, and the
  positions that the loop samples from \<open>window_start\<close> in steps of \<open>d\<close> include
  \<open>position\<close>.
\<close>

theorem window_holds_position:
  assumes "0 \<le> p" "p < L" "1 \<le> ks" "ks \<le> L" "1 \<le> d"
    and "s = get_window_start p L ks (ks sdiv 2) d c"
    and "e = get_window_end p s L ks (ks sdiv 2) d c"
  shows "p mod d = s mod d \<and> s \<le> p \<and> p < e \<and>
         (\<exists>xs. loop_positions s e d = Some xs \<and> p \<in> set xs)"
proof -
  have d: "0 < d" using assms(5) by simp
  note a = window_start_le[OF assms(1,2) d assms(3), of c, folded assms(6)]
  note b = window_contains[OF assms(1,2) d assms(3), of c, folded assms(6), folded assms(7)]
  have m: "p mod d = s mod d" using a(2) by (metis mod_eq_dvd_iff mod_eq_0_iff_dvd)
  have mem: "p \<in> set (sampled_positions s e d)"
    using a b by (simp add: sampled_positions_set[OF d])
  show ?thesis
  proof (intro conjI exI)
    show "loop_positions s e d = Some (sampled_positions s e d)" by (rule loop_positions_eq[OF d])
  qed (rule m a(1) b mem)+
qed

theorem window_holds_position_witness:
  "get_window_start 3 4 2 (2 sdiv 2) 1 False = 2 \<and>
   get_window_end 3 2 4 2 (2 sdiv 2) 1 False = 4 \<and>
   (\<exists>xs. loop_positions 2 4 1 = Some xs \<and> 3 \<in> set xs)"
  using window_holds_position[of 3 4 2 1 2 False 4]
  by (simp add: get_window_start_def get_window_end_def signed_divide_int_def)

section \<open>The aggregation kernel\<close>

text \<open>
  The theorems of this section are about \<^verbatim>\<open>launch\<close> with any two window functions
  that meet \<open>resolver_contract\<close>. \<open>preconditions\<close> collects what the kernel needs:
  positive extents, positive dilations, the contract, a weight buffer that holds what the
  strides address, and value and output buffers of the size of the shape.
\<close>



text \<open>
  Claim C7. For every coordinate and channel, the written output element is the left fold,
  from the \<open>0\<close> of the scalar type and with the \<open>+\<close> and \<open>*\<close> of that same type, of the
  products \<open>weight * value\<close> over the triples of the window; the triples are exactly those
  of the three stepped windows, in strictly increasing row-major order (axis 0 outer,
  axis 2 inner). Nothing is assumed of the scalar arithmetic.
\<close>

theorem launch_ordered_fold:
  assumes "preconditions window_start window_end weights values
             (output :: 'a::{zero,plus,times} list) P"
    and "in_range P b h k i j" and "0 \<le> d" "d < dim P"
    and "window_0 window_start window_end P k = (nk, ek)"
    and "window_1 window_start window_end P i = (ni, ei)"
    and "window_2 window_start window_end P j = (nj, ej)"
  shows "(\<exists>out. launch window_start window_end weights values output P = Some out \<and>
           out ! nat (linearIndex P b h k i j d) =
             foldl (\<lambda>updt (xk, xi, xj).
                      updt + weights ! nat (weightsIndex P (weightsOffset P b h k i j)
                                             nk ni nj xk xi xj) *
                             values ! nat (valuesIndex P (valuesOffset P b h d) xk xi xj))
               0 (window_triples P nk ni nj ek ei ej)) \<and>
         sorted_wrt row_major_before (window_triples P nk ni nj ek ei ej) \<and>
         set (window_triples P nk ni nj ek ei ej) =
           stepped_window nk ek (dilation_0 P) \<times> stepped_window ni ei (dilation_1 P) \<times>
           stepped_window nj ej (dilation_2 P)"
proof -
  from assms(1) have dil: "0 < dilation_0 P" "0 < dilation_1 P" "0 < dilation_2 P"
    by (simp_all add: preconditions_def)
  from launch_element[OF assms(1,2,3,4)] obtain out
    where o: "launch window_start window_end weights values output P = Some out"
      "out ! nat (linearIndex P b h k i j d)
        = channel_value window_start window_end weights values P b h k i j d"
    by blast
  have "channel_value window_start window_end weights values P b h k i j d
      = ordered_sum weights values P (weightsOffset P b h k i j) (valuesOffset P b h d)
          nk ni nj (window_triples P nk ni nj ek ei ej)"
    by (simp add: channel_value_def assms(5,6,7))
  then have "\<exists>out. launch window_start window_end weights values output P = Some out \<and>
           out ! nat (linearIndex P b h k i j d) =
             foldl (\<lambda>updt (xk, xi, xj).
                      updt + weights ! nat (weightsIndex P (weightsOffset P b h k i j)
                                             nk ni nj xk xi xj) *
                             values ! nat (valuesIndex P (valuesOffset P b h d) xk xi xj))
               0 (window_triples P nk ni nj ek ei ej)"
    using o by (simp only: ordered_sum_foldl) blast
  then show ?thesis
    using window_triples_row_major[OF dil] window_triples_set[OF dil] by blast
qed

theorem launch_ordered_fold_witness:
  "(\<exists>out. launch get_window_start get_window_end demo_weights demo_values demo_output demo_params
           = Some out \<and>
         out ! nat (linearIndex demo_params 0 0 0 0 1 0) =
           foldl (\<lambda>updt (xk, xi, xj).
                    updt + demo_weights ! nat (weightsIndex demo_params
                                                (weightsOffset demo_params 0 0 0 0 1)
                                                0 0 0 xk xi xj) *
                           demo_values ! nat (valuesIndex demo_params
                                               (valuesOffset demo_params 0 0 0) xk xi xj))
             0 (window_triples demo_params 0 0 0 1 1 3)) \<and>
   sorted_wrt row_major_before (window_triples demo_params 0 0 0 1 1 3) \<and>
   set (window_triples demo_params 0 0 0 1 1 3) =
     stepped_window 0 1 (dilation_0 demo_params) \<times> stepped_window 0 1 (dilation_1 demo_params) \<times>
     stepped_window 0 3 (dilation_2 demo_params)"
  by (rule launch_ordered_fold[OF demo_preconditions])
     (simp_all add: in_range_def demo_params_def window_0_def window_1_def window_2_def
        axis_window_def get_window_start_def get_window_end_def neighborhood_size_0_def
        neighborhood_size_1_def neighborhood_size_2_def signed_divide_int_def)

text \<open>
  Claim C8. The output addressing map
  \<open>(b, h, k, i, j, d) \<mapsto> b * values_stride_0 + h * values_stride_1 + k * values_stride_2 +
  i * values_stride_3 + j * values_stride_4 + d\<close>, with the strides derived from the shape,
  is injective on in-range tuples, and the flat offsets written for the channel vectors of
  two distinct in-range coordinates do not overlap.
\<close>

theorem output_regions_disjoint:
  assumes "in_range P b h k i j" "in_range P b' h' k' i' j'"
  shows "(\<forall>d\<in>{0..<dim P}. \<forall>d'\<in>{0..<dim P}.
            linearIndex P b h k i j d = linearIndex P b' h' k' i' j' d' \<longrightarrow>
            (b, h, k, i, j, d) = (b', h', k', i', j', d')) \<and>
         ((b, h, k, i, j) \<noteq> (b', h', k', i', j') \<longrightarrow>
            output_region P b h k i j \<inter> output_region P b' h' k' i' j' = {})"
proof -
  have inj: "(b, h, k, i, j, d) = (b', h', k', i', j', d')"
    if d: "d \<in> {0..<dim P}" "d' \<in> {0..<dim P}"
      and e: "linearIndex P b h k i j d = linearIndex P b' h' k' i' j' d'" for d d'
  proof -
    from d have r: "0 \<le> d" "d < dim P" "0 \<le> d'" "d' < dim P" by simp_all
    from e have "flat_index P b h k i j * dim P + d = flat_index P b' h' k' i' j' * dim P + d'"
      by (simp only: linearIndex_flat)
    from digit_unique[OF r this] have f: "flat_index P b h k i j = flat_index P b' h' k' i' j'"
      and dd: "d = d'" by simp_all
    from flat_index_inj[OF assms f] dd show ?thesis by simp
  qed
  then have "output_region P b h k i j \<inter> output_region P b' h' k' i' j' = {}"
    if "(b, h, k, i, j) \<noteq> (b', h', k', i', j')"
    using that unfolding output_region_def by fastforce
  then show ?thesis using inj by blast
qed

theorem output_regions_disjoint_witness:
  "output_region demo_params 0 0 0 0 0 \<inter> output_region demo_params 0 0 0 0 2 = {}"
  using output_regions_disjoint[of demo_params 0 0 0 0 0 0 0 0 0 2]
  by (simp add: in_range_def demo_params_def)

text \<open>
  Claim C9. The decomposition of lines 134--144 maps every flat index of
  \<open>[0, batch_size * heads * depth * height * width)\<close> to an in-range coordinate whose
  row-major flattening is that index, and every in-range coordinate is the decomposition
  of its flattening. The run of the kernel is one write per pair of flat index and
  channel; the written offsets are pairwise distinct and are exactly the offsets of the
  output buffer: every element is written exactly once.
\<close>

theorem launch_writes_each_element_once:
  assumes "preconditions window_start window_end weights values
             (output :: 'a::{zero,plus,times} list) P"
  shows "(\<forall>x\<in>{0..<total_coords P}.
            case coords P x of (b, h, k, i, j) \<Rightarrow>
              in_range P b h k i j \<and> flat_index P b h k i j = x) \<and>
         (\<forall>b h k i j. in_range P b h k i j \<longrightarrow>
            flat_index P b h k i j \<in> {0..<total_coords P} \<and>
            coords P (flat_index P b h k i j) = (b, h, k, i, j)) \<and>
         launch window_start window_end weights values output P =
           Some (fold (\<lambda>(x, d) out. out[nat (output_offset P x d) :=
                         element_value window_start window_end weights values P x d])
                   (output_writes P) output) \<and>
         distinct (map (\<lambda>(x, d). output_offset P x d) (output_writes P)) \<and>
         set (map (\<lambda>(x, d). output_offset P x d) (output_writes P)) = {0..<int (length output)}"
proof -
  from assms have ps: "positive_shape P" and len: "int (length output) = total_coords P * dim P"
    by (simp_all add: preconditions_def)
  from ps have dp: "0 < dim P" by (simp add: positive_shape_def)
  have a: "\<forall>x\<in>{0..<total_coords P}.
            case coords P x of (b, h, k, i, j) \<Rightarrow>
              in_range P b h k i j \<and> flat_index P b h k i j = x"
  proof
    fix x assume "x \<in> {0..<total_coords P}"
    then have x: "0 \<le> x" "x < total_coords P" by simp_all
    obtain b h k i j where c: "coords P x = (b, h, k, i, j)" by (rule coords_cases)
    show "case coords P x of (b, h, k, i, j) \<Rightarrow>
              in_range P b h k i j \<and> flat_index P b h k i j = x"
      using coords_in_range[OF ps x c] coords_flat[OF c] by (simp add: c)
  qed
  have b: "\<forall>b h k i j. in_range P b h k i j \<longrightarrow>
            flat_index P b h k i j \<in> {0..<total_coords P} \<and>
            coords P (flat_index P b h k i j) = (b, h, k, i, j)"
    using flat_index_bound coords_of_flat[OF ps] by simp
  have "distinct (map nat (map (\<lambda>(x, d). output_offset P x d) (output_writes P)))"
    using output_writes_distinct[of P] by (simp add: comp_def case_prod_unfold)
  then have d: "distinct (map (\<lambda>(x, d). output_offset P x d) (output_writes P))"
    by (auto simp: distinct_map dest: inj_on_imageI2)
  have s: "set (map (\<lambda>(x, d). output_offset P x d) (output_writes P)) = {0..<int (length output)}"
    using output_writes_cover[OF dp] len by simp
  show ?thesis using a b launch_result[OF assms] d s by blast
qed

theorem launch_writes_each_element_once_witness:
  "launch get_window_start get_window_end demo_weights demo_values demo_output demo_params =
     Some (fold (\<lambda>(x, d) out. out[nat (output_offset demo_params x d) :=
                   element_value get_window_start get_window_end demo_weights demo_values
                     demo_params x d])
             (output_writes demo_params) demo_output) \<and>
   distinct (map (\<lambda>(x, d). output_offset demo_params x d) (output_writes demo_params)) \<and>
   set (map (\<lambda>(x, d). output_offset demo_params x d) (output_writes demo_params))
     = {0..<int (length demo_output)}"
  using launch_writes_each_element_once[OF demo_preconditions] by blast

text \<open>
  Claim C10. For every access of the kernel, the weight index is the offset of the
  coordinate plus the row-major rank \<open>enum\<close> of the sample, with no stride on the rank:
  stepping to the next sample on axis 2 moves the index by exactly 1, whatever the five
  strides are.
\<close>

theorem weightsIndex_unit_stride:
  assumes "0 < dilation_0 P" "0 < dilation_1 P" "0 < dilation_2 P"
    and "xk \<in> stepped_window nk ek (dilation_0 P)" "xi \<in> stepped_window ni ei (dilation_1 P)"
    and "xj \<in> stepped_window nj ej (dilation_2 P)"
  shows "weightsIndex P (weightsOffset P b h k i j) nk ni nj xk xi xj
           = weightsOffset P b h k i j + enum_index P nk ni nj xk xi xj \<and>
         weightsIndex P (weightsOffset P b h k i j) nk ni nj xk xi (xj + dilation_2 P)
           = weightsIndex P (weightsOffset P b h k i j) nk ni nj xk xi xj + 1"
proof -
  from assms(4,5,6) have r: "nk \<le> xk" "ni \<le> xi" "nj \<le> xj" by (simp_all add: stepped_window_def)
  have r': "nj \<le> xj + dilation_2 P" using r(3) assms(3) by simp
  have "(xj + dilation_2 P - nj) div dilation_2 P = (xj - nj) div dilation_2 P + 1"
    using assms(3) by (metis add.commute add_diff_eq div_add_self1 less_irrefl)
  then have "enum_index P nk ni nj xk xi (xj + dilation_2 P) = enum_index P nk ni nj xk xi xj + 1"
    by (simp add: enum_index_def)
  then show ?thesis
    by (simp add: weightsIndex_enum[OF assms(1,2,3) r] weightsIndex_enum[OF assms(1,2,3) r(1,2) r'])
qed

theorem weightsIndex_unit_stride_witness:
  "weightsIndex demo_params (weightsOffset demo_params 0 0 0 0 2) 0 0 0 0 0 1
           = weightsOffset demo_params 0 0 0 0 2 + enum_index demo_params 0 0 0 0 0 1 \<and>
   weightsIndex demo_params (weightsOffset demo_params 0 0 0 0 2) 0 0 0 0 0 (1 + dilation_2 demo_params)
           = weightsIndex demo_params (weightsOffset demo_params 0 0 0 0 2) 0 0 0 0 0 1 + 1"
  using weightsIndex_unit_stride[of demo_params 0 0 1 0 0 1 1 0 3 0 0 0 0 2]
  by (simp add: demo_params_def stepped_window_def)

text \<open>
  Claim C6. Under the preconditions that the specification states (positive extents,
  \<open>1 \<le> kernel_size \<le> extent\<close> and \<open>dilation \<ge> 1\<close> on every axis, a weight buffer that
  holds what the strides address, value and output buffers of the size of the shape):
  every window of the modelled resolver meets the contract of the kernel, every sampled
  position of every in-range coordinate lies in \<open>[0, extent)\<close> on its axis, its weight
  sub-index lies in \<open>[0, kernel_volume)\<close>, and the kernel returns: none of its reads and
  writes takes the out-of-bounds branch.
\<close>

theorem launch_in_bounds:
  assumes "stated_preconditions weights values (output :: 'a::{zero,plus,times} list) P"
  shows "resolver_contract get_window_start get_window_end P \<and>
         (\<forall>k\<in>{0..<depth P}. \<forall>i\<in>{0..<height P}. \<forall>j\<in>{0..<width P}.
            case window_0 get_window_start get_window_end P k of (nk, ek) \<Rightarrow>
            case window_1 get_window_start get_window_end P i of (ni, ei) \<Rightarrow>
            case window_2 get_window_start get_window_end P j of (nj, ej) \<Rightarrow>
              \<forall>xk\<in>stepped_window nk ek (dilation_0 P).
              \<forall>xi\<in>stepped_window ni ei (dilation_1 P).
              \<forall>xj\<in>stepped_window nj ej (dilation_2 P).
                0 \<le> xk \<and> xk < depth P \<and> 0 \<le> xi \<and> xi < height P \<and> 0 \<le> xj \<and> xj < width P \<and>
                0 \<le> enum_index P nk ni nj xk xi xj \<and>
                enum_index P nk ni nj xk xi xj < kernel_volume P) \<and>
         (\<exists>out. launch get_window_start get_window_end weights values output P = Some out \<and>
                length out = length output)"
proof -
  from assms have ks: "1 \<le> kernel_size_0 P" "1 \<le> dilation_0 P" "1 \<le> kernel_size_1 P"
    "1 \<le> dilation_1 P" "1 \<le> kernel_size_2 P" "1 \<le> dilation_2 P"
    by (simp_all add: stated_preconditions_def)
  have dil: "0 < dilation_0 P" "0 < dilation_1 P" "0 < dilation_2 P" using ks by simp_all
  note rc = model_resolver_contract[OF ks]
  from rc have ac:
    "axis_contract get_window_start get_window_end (depth P) (kernel_size_0 P)
       (neighborhood_size_0 P) (dilation_0 P) (is_causal_0 P)"
    "axis_contract get_window_start get_window_end (height P) (kernel_size_1 P)
       (neighborhood_size_1 P) (dilation_1 P) (is_causal_1 P)"
    "axis_contract get_window_start get_window_end (width P) (kernel_size_2 P)
       (neighborhood_size_2 P) (dilation_2 P) (is_causal_2 P)"
    by (simp_all add: resolver_contract_def)
  have pre: "preconditions get_window_start get_window_end weights values output P"
    using assms rc dil by (simp add: preconditions_def stated_preconditions_def)
  have run: "\<exists>out. launch get_window_start get_window_end weights values output P = Some out \<and>
                length out = length output"
    by (simp add: launch_result[OF pre] fold_writes_length)
  have acc: "\<forall>k\<in>{0..<depth P}. \<forall>i\<in>{0..<height P}. \<forall>j\<in>{0..<width P}.
            case window_0 get_window_start get_window_end P k of (nk, ek) \<Rightarrow>
            case window_1 get_window_start get_window_end P i of (ni, ei) \<Rightarrow>
            case window_2 get_window_start get_window_end P j of (nj, ej) \<Rightarrow>
              \<forall>xk\<in>stepped_window nk ek (dilation_0 P).
              \<forall>xi\<in>stepped_window ni ei (dilation_1 P).
              \<forall>xj\<in>stepped_window nj ej (dilation_2 P).
                0 \<le> xk \<and> xk < depth P \<and> 0 \<le> xi \<and> xi < height P \<and> 0 \<le> xj \<and> xj < width P \<and>
                0 \<le> enum_index P nk ni nj xk xi xj \<and>
                enum_index P nk ni nj xk xi xj < kernel_volume P"
  proof (intro ballI)
    fix k i j
    assume "k \<in> {0..<depth P}" "i \<in> {0..<height P}" "j \<in> {0..<width P}"
    then have r: "0 \<le> k" "k < depth P" "0 \<le> i" "i < height P" "0 \<le> j" "j < width P"
      by simp_all
    obtain nk ek where w0: "window_0 get_window_start get_window_end P k = (nk, ek)"
      by (cases "window_0 get_window_start get_window_end P k")
    obtain ni ei where w1: "window_1 get_window_start get_window_end P i = (ni, ei)"
      by (cases "window_1 get_window_start get_window_end P i")
    obtain nj ej where w2: "window_2 get_window_start get_window_end P j = (nj, ej)"
      by (cases "window_2 get_window_start get_window_end P j")
    have b0: "0 \<le> nk" "ek \<le> depth P" "ek - nk \<le> kernel_size_0 P * dilation_0 P"
      using axis_contractD[OF ac(1) r(1,2)] w0
      by (auto simp: window_0_def axis_window_def Let_def)
    have b1: "0 \<le> ni" "ei \<le> height P" "ei - ni \<le> kernel_size_1 P * dilation_1 P"
      using axis_contractD[OF ac(2) r(3,4)] w1
      by (auto simp: window_1_def axis_window_def Let_def)
    have b2: "0 \<le> nj" "ej \<le> width P" "ej - nj \<le> kernel_size_2 P * dilation_2 P"
      using axis_contractD[OF ac(3) r(5,6)] w2
      by (auto simp: window_2_def axis_window_def Let_def)
    have "0 \<le> xk \<and> xk < depth P \<and> 0 \<le> xi \<and> xi < height P \<and> 0 \<le> xj \<and> xj < width P \<and>
          0 \<le> enum_index P nk ni nj xk xi xj \<and> enum_index P nk ni nj xk xi xj < kernel_volume P"
      if m: "xk \<in> stepped_window nk ek (dilation_0 P)" "xi \<in> stepped_window ni ei (dilation_1 P)"
        "xj \<in> stepped_window nj ej (dilation_2 P)" for xk xi xj
    proof -
      from m have "nk \<le> xk" "xk < ek" "ni \<le> xi" "xi < ei" "nj \<le> xj" "xj < ej"
        by (simp_all add: stepped_window_def)
      then have "0 \<le> xk \<and> xk < depth P \<and> 0 \<le> xi \<and> xi < height P \<and> 0 \<le> xj \<and> xj < width P"
        using b0(1,2) b1(1,2) b2(1,2) by simp
      then show ?thesis using enum_index_bound[OF dil b0(3) b1(3) b2(3) m] by simp
    qed
    then show "case window_0 get_window_start get_window_end P k of (nk, ek) \<Rightarrow>
            case window_1 get_window_start get_window_end P i of (ni, ei) \<Rightarrow>
            case window_2 get_window_start get_window_end P j of (nj, ej) \<Rightarrow>
              \<forall>xk\<in>stepped_window nk ek (dilation_0 P).
              \<forall>xi\<in>stepped_window ni ei (dilation_1 P).
              \<forall>xj\<in>stepped_window nj ej (dilation_2 P).
                0 \<le> xk \<and> xk < depth P \<and> 0 \<le> xi \<and> xi < height P \<and> 0 \<le> xj \<and> xj < width P \<and>
                0 \<le> enum_index P nk ni nj xk xi xj \<and>
                enum_index P nk ni nj xk xi xj < kernel_volume P"
      by (simp only: w0 w1 w2 prod.case) blast
  qed
  show ?thesis using rc acc run by (intro conjI)
qed

theorem launch_in_bounds_witness:
  "stated_preconditions [1, 2, 3, 4 :: int] [10, 20] [0, 0] even_params \<and>
   resolver_contract get_window_start get_window_end even_params \<and>
   (\<exists>out. launch get_window_start get_window_end [1, 2, 3, 4 :: int] [10, 20] [0, 0] even_params
            = Some out \<and> length out = length [0, 0 :: int])"
proof -
  have "weights_fit [1, 2, 3, 4 :: int] even_params"
    by (auto simp: weights_fit_def even_params_def kernel_volume_def weightsOffset_def)
  then have sp: "stated_preconditions [1, 2, 3, 4 :: int] [10, 20] [0, 0] even_params"
    by (simp add: stated_preconditions_def positive_shape_def total_coords_def even_params_def)
  from launch_in_bounds[OF sp] sp show ?thesis by blast
qed

end
